theory Spec2Isabelle
  imports Complex_Main "HOL-Library.Multiset"
begin

section \<open>Errors of the Python run time\<close>

text \<open>
  The notebooks have no \<^verbatim>\<open>try\<close>/\<^verbatim>\<open>except\<close>: an exception raised by Python or by a
  library ends the cell. Every such exception is a value of this type, and a fallible
  computation returns \<open>py_error + 'a\<close> with \<open>Inl\<close> for the exception.
\<close>

datatype py_error = ValueError | KeyError | IndexError | OSError | UnicodeDecodeError

text \<open>
  Where the variables of a cell matter after an exception, a computation returns
  \<open>py_error \<times> 's + 's\<close>: the state it returns with, or the exception with the state the
  variables have when it is raised. \<open>final_state\<close> is that state in both cases.
\<close>

definition final_state :: "py_error \<times> 's + 's \<Rightarrow> 's" where
  "final_state r = (case r of Inl (e, s) \<Rightarrow> s | Inr s \<Rightarrow> s)"

section \<open>Python strings\<close>

text \<open>
  A Python \<^verbatim>\<open>str\<close> is modelled as a \<open>string\<close>: a list of characters with code points
  0 to 255. \<^verbatim>\<open>str.isspace\<close> on this range holds of tab, line feed, vertical tab, form
  feed, carriage return, the separators 0x1c to 0x1f, the space, 0x85 and 0xa0.
\<close>

definition py_isspace :: "char \<Rightarrow> bool" where
  "py_isspace c = ((of_char c :: nat) \<in> {9, 10, 11, 12, 13, 28, 29, 30, 31, 32, 133, 160})"

text \<open>\<^verbatim>\<open>s.strip()\<close>: white space removed at both ends.\<close>

definition py_strip :: "string \<Rightarrow> string" where
  "py_strip s = rev (dropWhile py_isspace (rev (dropWhile py_isspace s)))"

text \<open>
  \<^verbatim>\<open>s.split(sep)\<close> with a separator of one character: the fields between the
  separators, at least one field, empty fields kept.
\<close>

fun py_split :: "char \<Rightarrow> string \<Rightarrow> string list" where
  "py_split sep [] = [[]]"
| "py_split sep (c # cs) =
     (if c = sep then [] # py_split sep cs
      else (case py_split sep cs of
              [] \<Rightarrow> [[c]]
            | w # ws \<Rightarrow> (c # w) # ws))"

text \<open>
  \<^verbatim>\<open>int(s)\<close> on a string, base 10 (Python 3.9, which has no limit on the number of
  digits): white space around the literal is ignored, one sign may lead, then come decimal
  digits, where single underscores may stand between two digits; anything else raises
  \<^verbatim>\<open>ValueError\<close>. The white space \<^verbatim>\<open>int\<close> ignores is not that of \<^verbatim>\<open>str.isspace\<close>:
  on the code points 0 to 255 it is tab, line feed, vertical tab, form feed, carriage
  return, the space, 0x85 and 0xa0, and not the separators 0x1c to 0x1f.
\<close>

definition py_int_isspace :: "char \<Rightarrow> bool" where
  "py_int_isspace c = ((of_char c :: nat) \<in> {9, 10, 11, 12, 13, 32, 133, 160})"

definition is_digit :: "char \<Rightarrow> bool" where
  "is_digit c = (48 \<le> (of_char c :: nat) \<and> (of_char c :: nat) \<le> 57)"

fun digits_ok :: "bool \<Rightarrow> string \<Rightarrow> bool" where
  "digits_ok prev_digit [] = prev_digit"
| "digits_ok prev_digit (c # cs) =
     (if is_digit c then digits_ok True cs
      else if c = CHR ''_'' \<and> prev_digit \<and> cs \<noteq> [] then digits_ok False cs
      else False)"

definition digits_value :: "string \<Rightarrow> int" where
  "digits_value s = foldl (\<lambda>acc c. 10 * acc + (int (of_char c) - 48)) 0 (filter is_digit s)"

definition py_int :: "string \<Rightarrow> py_error + int" where
  "py_int s =
     (let t = rev (dropWhile py_int_isspace (rev (dropWhile py_int_isspace s)));
          (negative, body) =
             (case t of
                [] \<Rightarrow> (False, t)
              | c # r \<Rightarrow> if c = CHR ''-'' then (True, r)
                         else if c = CHR ''+'' then (False, r)
                         else (False, t))
      in if digits_ok False body
         then Inr (if negative then - digits_value body else digits_value body)
         else Inl ValueError)"

section \<open>Loading the ratings of the sampled users (Classification notebook)\<close>

text \<open>
  One entry of \<^verbatim>\<open>ratings_data\<close>:
  \<^verbatim>\<open>{'movie_id': movie_id, 'user_id': user_id, 'rating': int(rating), 'date': date}\<close>
\<close>

record rating_row =
  movie_id :: string
  user_id :: string
  rating :: int
  date :: string

text \<open>The two variables the loop updates.\<close>

record loader_state =
  ratings_data :: "rating_row list"
  total_entries :: nat

text \<open>\<^verbatim>\<open>max_entries = 1000000  # Limit the number of entries for the sake of memory\<close>\<close>

definition max_entries :: nat where
  "max_entries = 1000000"

text \<open>
  The inner loop, over \<^verbatim>\<open>lines[1:]\<close> of one file of a selected movie:
  \<^verbatim>\<open>
  for line in lines[1:]:
      parts = line.strip().split(',')
      if len(parts) != 3: continue
      user_id, rating, date = parts
      # Only include sampled users
      if user_id in user_ids_set:
          ratings_data.append({...})
          total_entries += 1
          if total_entries >= max_entries: break
  \<close>
  The bound is a parameter \<open>mx\<close>, so that the loop can be run on small inputs. When
  \<^verbatim>\<open>int(rating)\<close> raises, the two variables stay as they are at that line.
\<close>

fun lines_loop ::
  "nat \<Rightarrow> string set \<Rightarrow> string \<Rightarrow> string list \<Rightarrow> loader_state
     \<Rightarrow> py_error \<times> loader_state + loader_state" where
  "lines_loop mx user_ids_set mid [] st = Inr st"
| "lines_loop mx user_ids_set mid (line # rest) st =
     (let parts = py_split (CHR '','') (py_strip line) in
      if length parts \<noteq> 3 then lines_loop mx user_ids_set mid rest st
      else
        let uid = parts ! 0; rating_field = parts ! 1; date_field = parts ! 2 in
        if uid \<in> user_ids_set then
          (case py_int rating_field of
             Inl e \<Rightarrow> Inl (e, st)
           | Inr r \<Rightarrow>
               let st' = \<lparr>ratings_data = ratings_data st @
                             [\<lparr>movie_id = mid, user_id = uid, rating = r, date = date_field\<rparr>],
                          total_entries = total_entries st + 1\<rparr>
               in if total_entries st' \<ge> mx then Inr st'
                  else lines_loop mx user_ids_set mid rest st')
        else lines_loop mx user_ids_set mid rest st)"

text \<open>
  The outer loop, over the rating files, in the order \<^verbatim>\<open>glob.glob\<close> gives them. A file
  is what opening and reading it gives: the list of its lines (\<^verbatim>\<open>f.readlines()\<close>), or
  the exception that \<^verbatim>\<open>open\<close> or \<^verbatim>\<open>readlines\<close> raises (a file that cannot be opened,
  bytes that do not decode), which ends the loop.
  \<^verbatim>\<open>
  for file_path in rating_files:
      with open(file_path, 'r') as f:
          lines = f.readlines()
          if not lines: continue
          # The first line contains the movie ID, ending with ':'
          movie_id_line = lines[0].strip()
          movie_id = movie_id_line[:-1]  # Remove the colon at the end
          # Only process if movie_id is in our set
          if movie_id in movie_ids_set:
              for line in lines[1:]: ...
              if total_entries >= max_entries: break
      if total_entries >= max_entries: break
  \<close>
\<close>

fun files_loop ::
  "nat \<Rightarrow> string set \<Rightarrow> string set \<Rightarrow> (py_error + string list) list \<Rightarrow> loader_state
     \<Rightarrow> py_error \<times> loader_state + loader_state" where
  "files_loop mx movie_ids_set user_ids_set [] st = Inr st"
| "files_loop mx movie_ids_set user_ids_set (file # files) st =
     (case file of
        Inl e \<Rightarrow> Inl (e, st)
      | Inr lines \<Rightarrow>
          (case lines of
             [] \<Rightarrow> files_loop mx movie_ids_set user_ids_set files st
           | first # others \<Rightarrow>
               let movie_id_line = py_strip first;
                   mid = butlast movie_id_line
               in if mid \<in> movie_ids_set then
                    (case lines_loop mx user_ids_set mid others st of
                       Inl x \<Rightarrow> Inl x
                     | Inr st' \<Rightarrow>
                         if total_entries st' \<ge> mx then Inr st'
                         else if total_entries st' \<ge> mx then Inr st'
                         else files_loop mx movie_ids_set user_ids_set files st')
                  else if total_entries st \<ge> mx then Inr st
                  else files_loop mx movie_ids_set user_ids_set files st))"

text \<open>
  The cell: \<^verbatim>\<open>ratings_data = []\<close>, \<^verbatim>\<open>total_entries = 0\<close>, the loop, and the list
  \<^verbatim>\<open>ratings_data\<close> that the data frame \<^verbatim>\<open>ratings_df\<close> is made of; when the loop raises, the
  list as it is then.
\<close>

definition load_ratings ::
  "nat \<Rightarrow> string set \<Rightarrow> string set \<Rightarrow> (py_error + string list) list
     \<Rightarrow> py_error \<times> rating_row list + rating_row list" where
  "load_ratings mx movie_ids_set user_ids_set rating_files =
     (case files_loop mx movie_ids_set user_ids_set rating_files
             \<lparr>ratings_data = [], total_entries = 0\<rparr> of
        Inl (e, st) \<Rightarrow> Inl (e, ratings_data st)
      | Inr st \<Rightarrow> Inr (ratings_data st))"

text \<open>
  Notions the statements about the loader use: the fields of a line as the loop computes
  them, the movie id a file announces, a file the loop selects, a row made from a line,
  and a line at which \<^verbatim>\<open>int(rating)\<close> raises.
\<close>

definition line_fields :: "string \<Rightarrow> string list" where
  "line_fields line = py_split (CHR '','') (py_strip line)"

definition three_fields :: "string \<Rightarrow> bool" where
  "three_fields line = (length (line_fields line) = 3)"

definition file_movie_id :: "string list \<Rightarrow> string" where
  "file_movie_id lines = butlast (py_strip (hd lines))"

definition selected :: "string set \<Rightarrow> string list \<Rightarrow> bool" where
  "selected movie_ids_set lines = (lines \<noteq> [] \<and> file_movie_id lines \<in> movie_ids_set)"

definition row_of_line :: "string \<Rightarrow> string \<Rightarrow> rating_row \<Rightarrow> bool" where
  "row_of_line mid line row =
     (three_fields line \<and> movie_id row = mid \<and> user_id row = line_fields line ! 0 \<and>
      py_int (line_fields line ! 1) = Inr (rating row) \<and> date row = line_fields line ! 2)"

definition bad_rating :: "string set \<Rightarrow> string \<Rightarrow> bool" where
  "bad_rating user_ids_set line =
     (three_fields line \<and> line_fields line ! 0 \<in> user_ids_set \<and>
      py_int (line_fields line ! 1) = Inl ValueError)"

text \<open>
  A file that the outer loop passes over: it was read, and it is empty or announces a
  movie id outside the movie set.
\<close>

definition skipped :: "string set \<Rightarrow> py_error + string list \<Rightarrow> bool" where
  "skipped movie_ids_set file =
     (case file of Inl e \<Rightarrow> False | Inr lines \<Rightarrow> \<not> selected movie_ids_set lines)"

text \<open>
  A file without the lines that do not split into exactly three fields, and a file
  without the lines that the inner loop passes over (those, and the lines of users
  outside the sample).
\<close>

definition well_formed_lines :: "string list \<Rightarrow> string list" where
  "well_formed_lines lines =
     (case lines of [] \<Rightarrow> [] | first # others \<Rightarrow> first # filter three_fields others)"


section \<open>Sampling the users (Classification notebook)\<close>

text \<open>
  A Python dictionary is an association list in insertion order, with pairwise distinct
  keys; \<^verbatim>\<open>list(d.keys())\<close> is \<open>map fst d\<close>. A user profile is a dictionary whose entry
  \<^verbatim>\<open>'feature_preferences'\<close> maps feature ids to preference ratios; ratios are modelled
  as reals. Movie and user ids are strings (the loader compares them with fields of the
  rating files), feature ids are integers.
\<close>

record user_profile =
  feature_preferences :: "(int \<times> real) list"

type_synonym user_profiles = "(string \<times> user_profile) list"

type_synonym movie_features = "(string \<times> int list) list"

text \<open>
  \<^verbatim>\<open>np.random.choice(a, size=k, replace=False)\<close> after \<^verbatim>\<open>np.random.seed(RANDOM_SEED)\<close>:
  the first \<open>n\<close> (the size) entries of the generator's permutation of the positions of \<open>a\<close>,
  read in \<open>a\<close>. A sample larger than the population raises \<^verbatim>\<open>ValueError\<close>, and so
  does a non-empty sample of an empty population. The permutation the seeded generator
  draws for a population of n is the parameter \<open>permutation n\<close>.
\<close>

definition np_random_choice :: "(nat \<Rightarrow> nat list) \<Rightarrow> 'a list \<Rightarrow> nat \<Rightarrow> py_error + 'a list" where
  "np_random_choice permutation a n =
     (if a = [] \<and> n \<noteq> 0 then Inl ValueError
      else if n > length a then Inl ValueError
      else Inr (map (\<lambda>i. a ! i) (take n (permutation (length a)))))"

text \<open>\<^verbatim>\<open>k = 30\<close>, the number of users sampled.\<close>

definition k_sampled :: nat where
  "k_sampled = 30"

text \<open>
  \<^verbatim>\<open>
  user_ids = list(user_profiles.keys())
  np.random.seed(RANDOM_SEED)
  sampled_user_ids = np.random.choice(user_ids, size=k, replace=False)
  \<close>
\<close>

definition sampled_user_ids :: "(nat \<Rightarrow> nat list) \<Rightarrow> user_profiles \<Rightarrow> py_error + string list" where
  "sampled_user_ids permutation user_profiles =
     np_random_choice permutation (map fst user_profiles) k_sampled"

text \<open>
  The ratings cell after the sampling cell:
  \<^verbatim>\<open>
  movie_ids_set = set(movie_features.keys())
  user_ids_set = set(sampled_user_ids)  # Use sampled users
  \<close>
  and the loop of \<open>load_ratings\<close> with \<open>max_entries\<close>. When the sampling cell raises,
  no row has been loaded.
\<close>

definition sampled_ratings ::
  "(nat \<Rightarrow> nat list) \<Rightarrow> user_profiles \<Rightarrow> movie_features \<Rightarrow> (py_error + string list) list
     \<Rightarrow> py_error \<times> rating_row list + rating_row list" where
  "sampled_ratings permutation user_profiles movie_features rating_files =
     (case sampled_user_ids permutation user_profiles of
        Inl e \<Rightarrow> Inl (e, [])
      | Inr ids \<Rightarrow>
          load_ratings max_entries (set (map fst movie_features)) (set ids) rating_files)"

section \<open>Binarized rating labels (Classification notebook)\<close>

text \<open>
  \<^verbatim>\<open>ratings_df['label'] = ratings_df['rating'].apply(lambda x: 1 if x >= 4 else 0)\<close>
  The column \<^verbatim>\<open>rating\<close> holds Python integers (\<^verbatim>\<open>int(rating)\<close> in the loader).
\<close>

definition label :: "int \<Rightarrow> int" where
  "label x = (if x \<ge> 4 then 1 else 0)"

section \<open>Data frames\<close>

text \<open>
  A pandas \<^verbatim>\<open>DataFrame\<close> with row labels (the index), column labels and one cell for
  every pair of a row label and a column label. A cell holds a value or is missing
  (\<^verbatim>\<open>NaN\<close>). The frames built here have pairwise distinct row labels and pairwise
  distinct column labels (the keys of dictionaries), so a cell is named by its labels.
\<close>

datatype 'v cell = NaN | Val 'v

record ('r, 'c, 'v) dataframe =
  index :: "'r list"
  columns :: "'c list"
  cells :: "'r \<Rightarrow> 'c \<Rightarrow> 'v cell"

text \<open>\<^verbatim>\<open>pd.DataFrame(v, index=idx, columns=cols)\<close>: every cell holds the scalar \<open>v\<close>.\<close>

definition new_frame :: "'v \<Rightarrow> 'r list \<Rightarrow> 'c list \<Rightarrow> ('r, 'c, 'v) dataframe" where
  "new_frame v idx cols = \<lparr>index = idx, columns = cols, cells = (\<lambda>r c. Val v)\<rparr>"

text \<open>
  Reading the cell at a row label and a column label (\<^verbatim>\<open>df.loc[r, c]\<close>,
  \<^verbatim>\<open>df.at[r, c]\<close>): a label that the frame does not have raises \<^verbatim>\<open>KeyError\<close>.
\<close>

definition cell_at :: "('r, 'c, 'v) dataframe \<Rightarrow> 'r \<Rightarrow> 'c \<Rightarrow> py_error + 'v cell" where
  "cell_at df r c =
     (if r \<in> set (index df) \<and> c \<in> set (columns df) then Inr (cells df r c) else Inl KeyError)"

text \<open>
  \<^verbatim>\<open>df.loc[r, cs] = v\<close> for a row label \<open>r\<close>, a list \<open>cs\<close> of column labels and a
  scalar \<open>v\<close>. pandas sets with enlargement: a column label of \<open>cs\<close> that the frame
  does not have is appended as a new column (in the order of its first occurrence), and a
  row label that the frame does not have is appended as a new row; the other cells of a
  new column or row are missing. Then the cells of row \<open>r\<close> in the columns \<open>cs\<close> get \<open>v\<close>.
\<close>

definition loc_set_list ::
  "('r, 'c, 'v) dataframe \<Rightarrow> 'r \<Rightarrow> 'c list \<Rightarrow> 'v \<Rightarrow> ('r, 'c, 'v) dataframe" where
  "loc_set_list df r cs v =
     (let new_cols = rev (remdups (rev (filter (\<lambda>c. c \<notin> set (columns df)) cs)));
          new_rows = (if r \<in> set (index df) then [] else [r])
      in \<lparr>index = index df @ new_rows,
          columns = columns df @ new_cols,
          cells = (\<lambda>r' c'.
             if r' = r \<and> c' \<in> set cs then Val v
             else if c' \<in> set new_cols \<or> r' \<in> set new_rows then NaN
             else cells df r' c')\<rparr>)"

text \<open>\<^verbatim>\<open>df.loc[r, c] = v\<close> for one column label: the same, with the one label.\<close>

definition loc_set ::
  "('r, 'c, 'v) dataframe \<Rightarrow> 'r \<Rightarrow> 'c \<Rightarrow> 'v \<Rightarrow> ('r, 'c, 'v) dataframe" where
  "loc_set df r c v = loc_set_list df r [c] v"

section \<open>The movie feature matrix (Classification and Clustering notebooks)\<close>

text \<open>
  \<^verbatim>\<open>
  movie_ids = list(movie_features.keys())
  feature_ids = list(id_to_feature.keys())
  movie_feature_matrix = pd.DataFrame(0, index=movie_ids, columns=feature_ids)
  for movie_id, features in movie_features.items():
      movie_feature_matrix.loc[movie_id, features] = 1
  \<close>
  \<open>fill_movies\<close> is the loop; \<open>id_to_feature\<close> maps feature ids to feature names.
\<close>

fun fill_movies ::
  "(string, int, int) dataframe \<Rightarrow> movie_features \<Rightarrow> (string, int, int) dataframe" where
  "fill_movies df [] = df"
| "fill_movies df ((mid, features) # items) = fill_movies (loc_set_list df mid features 1) items"

definition movie_feature_matrix ::
  "movie_features \<Rightarrow> (int \<times> string) list \<Rightarrow> (string, int, int) dataframe" where
  "movie_feature_matrix movie_features id_to_feature =
     (let movie_ids = map fst movie_features;
          feature_ids = map fst id_to_feature
      in fill_movies (new_frame 0 movie_ids feature_ids) movie_features)"

section \<open>The user feature matrix (Classification notebook)\<close>

text \<open>
  \<^verbatim>\<open>sampled_user_profiles = {user_id: user_profiles[user_id] for user_id in sampled_user_ids}\<close>
  A key that \<open>user_profiles\<close> does not have raises \<^verbatim>\<open>KeyError\<close>; a key met again keeps
  its place in the new dictionary and takes the new value.
\<close>

definition dict_set :: "('k \<times> 'v) list \<Rightarrow> 'k \<Rightarrow> 'v \<Rightarrow> ('k \<times> 'v) list" where
  "dict_set d k v =
     (if k \<in> fst ` set d then map (\<lambda>(k', v'). if k' = k then (k, v) else (k', v')) d
      else d @ [(k, v)])"

fun sampled_user_profiles_from ::
  "user_profiles \<Rightarrow> user_profiles \<Rightarrow> string list \<Rightarrow> py_error + user_profiles" where
  "sampled_user_profiles_from acc user_profiles [] = Inr acc"
| "sampled_user_profiles_from acc user_profiles (uid # ids) =
     (case map_of user_profiles uid of
        None \<Rightarrow> Inl KeyError
      | Some profile \<Rightarrow> sampled_user_profiles_from (dict_set acc uid profile) user_profiles ids)"

definition sampled_user_profiles :: "user_profiles \<Rightarrow> string list \<Rightarrow> py_error + user_profiles" where
  "sampled_user_profiles user_profiles ids = sampled_user_profiles_from [] user_profiles ids"

text \<open>
  \<^verbatim>\<open>
  user_feature_matrix = pd.DataFrame(-1, index=sampled_user_ids, columns=feature_ids)
  for user_id, user_data in sampled_user_profiles.items():
      feature_preferences = user_data['feature_preferences']
      for feature_id, preference in feature_preferences.items():
          user_feature_matrix.loc[user_id, feature_id] = preference
  \<close>
  \<open>fill_preferences\<close> is the inner loop and \<open>fill_users\<close> the outer one.
\<close>

fun fill_preferences ::
  "(string, int, real) dataframe \<Rightarrow> string \<Rightarrow> (int \<times> real) list \<Rightarrow> (string, int, real) dataframe" where
  "fill_preferences df uid [] = df"
| "fill_preferences df uid ((feature_id, preference) # items) =
     fill_preferences (loc_set df uid feature_id preference) uid items"

fun fill_users ::
  "(string, int, real) dataframe \<Rightarrow> user_profiles \<Rightarrow> (string, int, real) dataframe" where
  "fill_users df [] = df"
| "fill_users df ((uid, user_data) # items) =
     fill_users (fill_preferences df uid (feature_preferences user_data)) items"

definition user_feature_matrix ::
  "user_profiles \<Rightarrow> string list \<Rightarrow> int list \<Rightarrow> py_error + (string, int, real) dataframe" where
  "user_feature_matrix user_profiles sampled_ids feature_ids =
     (case sampled_user_profiles user_profiles sampled_ids of
        Inl e \<Rightarrow> Inl e
      | Inr sampled \<Rightarrow> Inr (fill_users (new_frame (- 1) sampled_ids feature_ids) sampled))"

section \<open>The movie feature matrix of the Heatmaps notebook\<close>

text \<open>
  \<^verbatim>\<open>
  data = []
  movie_ids = []
  for movie_id, feature_ids in movie_features.items():
      movie_ids.append(movie_id)
      feature_presence = {fid: 1 for fid in feature_ids}
      data.append(feature_presence)
  movie_data = pd.DataFrame.from_records(data, index=movie_ids)
  movie_data = movie_data.fillna(0).astype(int)
  \<close>
  A dictionary comprehension with one value for every key lists the keys in the order of
  their first occurrence. \<^verbatim>\<open>from_records\<close> on a list of dictionaries makes one row of
  each dictionary and one column of each key, in the order of first occurrence; a key
  that a dictionary does not have gives a missing cell; an index of another length than
  the data raises \<^verbatim>\<open>ValueError\<close>. \<^verbatim>\<open>fillna\<close> replaces the missing cells, and
  \<^verbatim>\<open>astype(int)\<close> leaves the integers 0 and 1 as they are.
\<close>

definition dict_of_keys :: "'k list \<Rightarrow> 'v \<Rightarrow> ('k \<times> 'v) list" where
  "dict_of_keys ks v = map (\<lambda>k. (k, v)) (rev (remdups (rev ks)))"

definition from_records ::
  "('c \<times> 'v) list list \<Rightarrow> 'r list \<Rightarrow> py_error + ('r, 'c, 'v) dataframe" where
  "from_records data idx =
     (if length idx \<noteq> length data then Inl ValueError
      else Inr \<lparr>index = idx,
                columns = rev (remdups (rev (concat (map (map fst) data)))),
                cells = (\<lambda>r c.
                   case map_of (zip idx data) r of
                     None \<Rightarrow> NaN
                   | Some d \<Rightarrow> (case map_of d c of None \<Rightarrow> NaN | Some v \<Rightarrow> Val v))\<rparr>)"

definition fillna :: "'v \<Rightarrow> ('r, 'c, 'v) dataframe \<Rightarrow> ('r, 'c, 'v) dataframe" where
  "fillna v df = df\<lparr>cells := (\<lambda>r c. case cells df r c of NaN \<Rightarrow> Val v | Val x \<Rightarrow> Val x)\<rparr>"

definition movie_data :: "movie_features \<Rightarrow> py_error + (string, int, int) dataframe" where
  "movie_data movie_features =
     (let data = map (\<lambda>(mid, feature_ids). dict_of_keys feature_ids 1) movie_features;
          movie_ids = map fst movie_features
      in case from_records data movie_ids of
           Inl e \<Rightarrow> Inl e
         | Inr df \<Rightarrow> Inr (fillna 0 df))"

section \<open>Top and bottom correlations (Heatmaps notebook)\<close>

text \<open>
  \<^verbatim>\<open>
  def get_redundant_pairs(df):
      '''Get diagonal and lower triangular pairs of correlation matrix'''
      pairs_to_drop = set()
      cols = df.columns
      for i in range(df.shape[0]):
          for j in range(i+1):
              pairs_to_drop.add((cols[i], cols[j]))
      return pairs_to_drop
  \<close>
  \<^verbatim>\<open>df.shape[0]\<close> is the number of rows; \<^verbatim>\<open>cols[i]\<close> raises \<^verbatim>\<open>IndexError\<close> when the
  frame has more rows than columns.
\<close>

definition get_redundant_pairs :: "('r, 'c, 'v) dataframe \<Rightarrow> py_error + ('c \<times> 'c) set" where
  "get_redundant_pairs df =
     (let cols = columns df; n = length (index df)
      in if n \<le> length cols
         then Inr (set (concat (map (\<lambda>i. map (\<lambda>j. (cols ! i, cols ! j)) [0..<i + 1]) [0..<n])))
         else Inl IndexError)"

text \<open>
  A pandas \<^verbatim>\<open>Series\<close> is the list of its entries, a label with a value each.
  \<^verbatim>\<open>corr_matrix.unstack()\<close> lists the cells column by column, each under the pair of
  its column label and its row label.
\<close>

type_synonym ('k, 'v) series = "('k \<times> 'v cell) list"

definition unstack :: "('r, 'c, 'v) dataframe \<Rightarrow> ('c \<times> 'r, 'v) series" where
  "unstack df = concat (map (\<lambda>c. map (\<lambda>r. ((c, r), cells df r c)) (index df)) (columns df))"

text \<open>
  \<^verbatim>\<open>s.drop(labels=labels)\<close>: the entries whose label is not in \<open>labels\<close>; a label that
  the series does not have raises \<^verbatim>\<open>KeyError\<close>.
\<close>

definition drop_labels :: "('k, 'v) series \<Rightarrow> 'k set \<Rightarrow> py_error + ('k, 'v) series" where
  "drop_labels s labels =
     (if labels \<subseteq> fst ` set s then Inr (filter (\<lambda>(k, v). k \<notin> labels) s) else Inl KeyError)"

text \<open>The entries of a series that have a value, with their values.\<close>

definition present_values :: "('k, 'v) series \<Rightarrow> ('k \<times> 'v) list" where
  "present_values s = concat (map (\<lambda>(k, v). case v of NaN \<Rightarrow> [] | Val x \<Rightarrow> [(k, x)]) s)"

definition series_values :: "('k, 'v) series \<Rightarrow> 'v list" where
  "series_values s = map snd (present_values s)"

text \<open>
  \<^verbatim>\<open>s.sort_values(ascending=...)\<close>: the entries with a value in the order of their
  values, ascending or descending, and the entries with a missing value last. pandas
  leaves the order of entries with equal values open; here they keep their order when
  ascending and reverse it when descending.
\<close>

definition sort_values :: "bool \<Rightarrow> ('k, real) series \<Rightarrow> ('k, real) series" where
  "sort_values ascending s =
     (let missing = filter (\<lambda>(k, v). v = NaN) s;
          ordered = sort_key snd (present_values s)
      in map (\<lambda>(k, x). (k, Val x)) (if ascending then ordered else rev ordered) @ missing)"

text \<open>
  \<^verbatim>\<open>
  def get_top_correlations(corr_matrix, n=5):
      '''Get top n pairs with highest correlations'''
      au_corr = corr_matrix.unstack()
      labels_to_drop = get_redundant_pairs(corr_matrix)
      au_corr = au_corr.drop(labels=labels_to_drop)
      sorted_corr = au_corr.sort_values(ascending=False)
      return sorted_corr[0:n]
  \<close>
  and \<^verbatim>\<open>get_bottom_correlations\<close>, the same with \<^verbatim>\<open>au_corr.sort_values()\<close>.
  \<open>upper_pairs\<close> is what both compute before sorting; n is a natural number.
\<close>

definition upper_pairs :: "('c, 'c, real) dataframe \<Rightarrow> py_error + ('c \<times> 'c, real) series" where
  "upper_pairs corr_matrix =
     (let au_corr = unstack corr_matrix in
      case get_redundant_pairs corr_matrix of
        Inl e \<Rightarrow> Inl e
      | Inr labels_to_drop \<Rightarrow> drop_labels au_corr labels_to_drop)"

definition get_top_correlations ::
  "('c, 'c, real) dataframe \<Rightarrow> nat \<Rightarrow> py_error + ('c \<times> 'c, real) series" where
  "get_top_correlations corr_matrix n =
     (case upper_pairs corr_matrix of
        Inl e \<Rightarrow> Inl e
      | Inr au_corr \<Rightarrow> Inr (take n (sort_values False au_corr)))"

definition get_bottom_correlations ::
  "('c, 'c, real) dataframe \<Rightarrow> nat \<Rightarrow> py_error + ('c \<times> 'c, real) series" where
  "get_bottom_correlations corr_matrix n =
     (case upper_pairs corr_matrix of
        Inl e \<Rightarrow> Inl e
      | Inr au_corr \<Rightarrow> Inr (take n (sort_values True au_corr)))"

text \<open>
  The entries strictly above the diagonal, row by row of the upper triangle: for the
  positions i < j of the column labels, the pair of label i and label j with the cell in
  column i and row j.
\<close>

definition upper_list :: "('c, 'c, real) dataframe \<Rightarrow> ('c \<times> 'c, real) series" where
  "upper_list df =
     concat (map (\<lambda>i. map (\<lambda>j. ((columns df ! i, columns df ! j),
                                   cells df (columns df ! j) (columns df ! i)))
                         [Suc i..<length (columns df)]) [0..<length (columns df)])"

section \<open>Choice of the number of clusters (Clustering notebooks)\<close>

text \<open>
  \<^verbatim>\<open>np.argmax\<close> on a one-dimensional sequence: a left-to-right scan that keeps the
  position of the best value seen so far and replaces it only by a strictly larger one;
  an empty sequence raises \<^verbatim>\<open>ValueError\<close>. Scores are modelled as reals (no NaN).
\<close>

fun argmax_from :: "nat \<Rightarrow> real \<Rightarrow> nat \<Rightarrow> real list \<Rightarrow> nat" where
  "argmax_from bi bv i [] = bi"
| "argmax_from bi bv i (x # xs) =
     (if bv < x then argmax_from i x (Suc i) xs else argmax_from bi bv (Suc i) xs)"

definition np_argmax :: "real list \<Rightarrow> py_error + nat" where
  "np_argmax xs = (case xs of [] \<Rightarrow> Inl ValueError | x # r \<Rightarrow> Inr (argmax_from 0 x 1 r))"

text \<open>
  \<^verbatim>\<open>
  def compute_clustering_metrics(data, k_range):
      silhouette_scores = []
      ch_scores = []
      for k in k_range:
          kmeans = KMeans(n_clusters=k, random_state=42)
          labels = kmeans.fit_predict(data)
          silhouette_scores.append(silhouette_score(data, labels))
          ch_scores.append(calinski_harabasz_score(data, labels))
      return silhouette_scores, ch_scores
  \<close>
  The three library calls are parameters: \<open>fit_predict k data\<close> stands for
  \<^verbatim>\<open>KMeans(n_clusters=k, random_state=42).fit_predict(data)\<close>.
\<close>

definition compute_clustering_metrics ::
  "(nat \<Rightarrow> 'd \<Rightarrow> 'l) \<Rightarrow> ('d \<Rightarrow> 'l \<Rightarrow> real) \<Rightarrow> ('d \<Rightarrow> 'l \<Rightarrow> real) \<Rightarrow> 'd \<Rightarrow> nat list
     \<Rightarrow> real list \<times> real list" where
  "compute_clustering_metrics fit_predict silhouette_score calinski_harabasz_score data k_range =
     (map (\<lambda>k. silhouette_score data (fit_predict k data)) k_range,
      map (\<lambda>k. calinski_harabasz_score data (fit_predict k data)) k_range)"

text \<open>\<^verbatim>\<open>k_range = range(2, 21)\<close>\<close>

definition k_range :: "nat list" where
  "k_range = [2..<21]"

text \<open>
  \<^verbatim>\<open>best_k = k_range[np.argmax(silhouette_scores)]\<close>; indexing a range out of its
  bounds raises \<^verbatim>\<open>IndexError\<close>.
\<close>

definition best_k :: "nat list \<Rightarrow> real list \<Rightarrow> py_error + nat" where
  "best_k ks silhouette_scores =
     (case np_argmax silhouette_scores of
        Inl e \<Rightarrow> Inl e
      | Inr i \<Rightarrow> if i < length ks then Inr (ks ! i) else Inl IndexError)"

text \<open>
  The two cells together: the metrics over \<open>k_range\<close>, the choice of \<open>best_k\<close>, and
  \<^verbatim>\<open>
  kmeans = KMeans(n_clusters=best_k, random_state=42)
  labels = kmeans.fit_predict(data)
  \<close>
  The result is the chosen k with the labels of the final fit.
\<close>

definition kmeans_best ::
  "(nat \<Rightarrow> 'd \<Rightarrow> 'l) \<Rightarrow> ('d \<Rightarrow> 'l \<Rightarrow> real) \<Rightarrow> ('d \<Rightarrow> 'l \<Rightarrow> real) \<Rightarrow> 'd
     \<Rightarrow> py_error + (nat \<times> 'l)" where
  "kmeans_best fit_predict silhouette_score calinski_harabasz_score data =
     (let (silhouette_scores, ch_scores) =
            compute_clustering_metrics fit_predict silhouette_score calinski_harabasz_score
              data k_range
      in case best_k k_range silhouette_scores of
           Inl e \<Rightarrow> Inl e
         | Inr k \<Rightarrow> Inr (k, fit_predict k data))"

section \<open>Retained features\<close>

text \<open>
  \<^verbatim>\<open>MIN_OCCURRENCES = 20\<close>; the notebooks load
  \<^verbatim>\<open>processed/movie_features_{MIN_OCCURRENCES}.pickle\<close> and
  \<^verbatim>\<open>processed/feature_mapping_{MIN_OCCURRENCES}.pickle\<close>.
\<close>

definition MIN_OCCURRENCES :: nat where
  "MIN_OCCURRENCES = 20"

text \<open>The number of movies of a dictionary from movies to features that have feature f.\<close>

definition occurrences :: "'f \<Rightarrow> ('m \<times> 'f list) list \<Rightarrow> nat" where
  "occurrences f movie_features = length (filter (\<lambda>(m, fs). f \<in> set fs) movie_features)"

text \<open>
  Modelled from the spec: the feature engineering that writes the two pickled files is
  not among the sources. The spec says of a feature that it is an engineered categorical
  attribute of a movie, ``retained only if it occurs in \<ge>20 movies''. So, from the
  engineered feature names of every movie (\<open>raw\<close>), the retained features are the
  names that at least \<open>MIN_OCCURRENCES\<close> movies have.
\<close>

definition retained_features :: "(string \<times> string list) list \<Rightarrow> string list" where
  "retained_features raw =
     filter (\<lambda>f. MIN_OCCURRENCES \<le> occurrences f raw) (remdups (concat (map snd raw)))"

text \<open>
  Modelled from the spec: the feature mapping \<^verbatim>\<open>id_to_feature\<close> that the missing step
  pickles; it numbers the retained features from 0.
\<close>

definition id_to_feature_of :: "(string \<times> string list) list \<Rightarrow> (int \<times> string) list" where
  "id_to_feature_of raw =
     zip (map int [0..<length (retained_features raw)]) (retained_features raw)"

text \<open>
  Modelled from the spec: the dictionary \<^verbatim>\<open>movie_features\<close> that the missing step
  pickles; it gives every movie the ids of those of its features that are retained.
\<close>

definition movie_features_of :: "(string \<times> string list) list \<Rightarrow> movie_features" where
  "movie_features_of raw =
     map (\<lambda>(m, fs). (m, map fst (filter (\<lambda>(fid, name). name \<in> set fs) (id_to_feature_of raw))))
       raw"

section \<open>Properties\<close>

subsection \<open>The rating loader\<close>

lemma py_int_error: "py_int s = Inl e \<Longrightarrow> e = ValueError"
  by (auto simp: py_int_def Let_def split: if_splits prod.splits)

lemma py_int_white_space:
  "py_int [CHR 0x1C, CHR ''4''] = Inl ValueError" "py_int '' 4\<newline>'' = Inr 4"
  "py_strip [CHR 0x1C, CHR ''4''] = ''4''"
  by (simp_all add: py_int_def py_int_isspace_def py_strip_def py_isspace_def is_digit_def
      digits_value_def)

lemma final_state_simps [simp]:
  "final_state (Inl (e, s)) = s" "final_state (Inr s) = s"
  by (simp_all add: final_state_def)

lemma lines_loop_skip:
  "\<not> (three_fields line \<and> line_fields line ! 0 \<in> us) \<Longrightarrow>
   lines_loop mx us mid (line # rest) st = lines_loop mx us mid rest st"
  by (auto simp: three_fields_def line_fields_def Let_def)

lemma lines_loop_take:
  "three_fields line \<and> line_fields line ! 0 \<in> us \<Longrightarrow>
   lines_loop mx us mid (line # rest) st =
     (case py_int (line_fields line ! 1) of
        Inl e \<Rightarrow> Inl (e, st)
      | Inr r \<Rightarrow>
          if mx \<le> Suc (total_entries st)
          then Inr \<lparr>ratings_data = ratings_data st @
                      [\<lparr>movie_id = mid, user_id = line_fields line ! 0, rating = r,
                        date = line_fields line ! 2\<rparr>],
                    total_entries = Suc (total_entries st)\<rparr>
          else lines_loop mx us mid rest
                 \<lparr>ratings_data = ratings_data st @
                      [\<lparr>movie_id = mid, user_id = line_fields line ! 0, rating = r,
                        date = line_fields line ! 2\<rparr>],
                  total_entries = Suc (total_entries st)\<rparr>)"
  by (simp add: three_fields_def line_fields_def Let_def split: sum.splits)

declare lines_loop.simps(2) [simp del]

lemma lines_loop_state:
  "\<exists>new. ratings_data (final_state (lines_loop mx us mid lines st)) = ratings_data st @ new \<and>
         total_entries (final_state (lines_loop mx us mid lines st)) =
           total_entries st + length new \<and>
         (\<forall>row\<in>set new. user_id row \<in> us \<and> (\<exists>line\<in>set lines. row_of_line mid line row)) \<and>
         (total_entries st < mx \<longrightarrow>
            total_entries (final_state (lines_loop mx us mid lines st)) \<le> mx)"
proof (induction lines arbitrary: st)
  case Nil
  show ?case by simp
next
  case (Cons line rest)
  show ?case
  proof (cases "three_fields line \<and> line_fields line ! 0 \<in> us")
    case False
    then have "lines_loop mx us mid (line # rest) st = lines_loop mx us mid rest st"
      by (rule lines_loop_skip)
    with Cons.IH [of st] show ?thesis by auto
  next
    case True
    show ?thesis
    proof (cases "py_int (line_fields line ! 1)")
      case (Inl e)
      with lines_loop_take [OF True] have "lines_loop mx us mid (line # rest) st = Inl (e, st)"
        by simp
      then show ?thesis by (intro exI [of _ "[]"]) simp
    next
      case (Inr r)
      define row where "row = \<lparr>movie_id = mid, user_id = line_fields line ! 0, rating = r,
                           date = line_fields line ! 2\<rparr>"
      define st1 where "st1 = \<lparr>ratings_data = ratings_data st @ [row],
                             total_entries = Suc (total_entries st)\<rparr>"
      have row: "user_id row \<in> us" "row_of_line mid line row"
        using True Inr by (simp_all add: row_def row_of_line_def)
      have step: "lines_loop mx us mid (line # rest) st =
          (if mx \<le> total_entries st1 then Inr st1 else lines_loop mx us mid rest st1)"
        using Inr unfolding lines_loop_take [OF True] by (simp add: st1_def row_def)
      show ?thesis
      proof (cases "mx \<le> total_entries st1")
        case True
        with step have "final_state (lines_loop mx us mid (line # rest) st) = st1" by simp
        then have "ratings_data (final_state (lines_loop mx us mid (line # rest) st)) =
            ratings_data st @ [row]"
          "total_entries (final_state (lines_loop mx us mid (line # rest) st)) =
            total_entries st + length [row]"
          "total_entries st < mx \<longrightarrow>
            total_entries (final_state (lines_loop mx us mid (line # rest) st)) \<le> mx"
          by (simp_all add: st1_def)
        with row show ?thesis by (intro exI [of _ "[row]"]) simp
      next
        case False
        with step have eq: "lines_loop mx us mid (line # rest) st = lines_loop mx us mid rest st1"
          by simp
        from Cons.IH [of st1] obtain new where new:
          "ratings_data (final_state (lines_loop mx us mid rest st1)) = ratings_data st1 @ new"
          "total_entries (final_state (lines_loop mx us mid rest st1)) =
             total_entries st1 + length new"
          "\<forall>row\<in>set new. user_id row \<in> us \<and> (\<exists>line\<in>set rest. row_of_line mid line row)"
          "total_entries st1 < mx \<longrightarrow>
             total_entries (final_state (lines_loop mx us mid rest st1)) \<le> mx"
          by blast
        have "ratings_data (final_state (lines_loop mx us mid (line # rest) st)) =
            ratings_data st @ (row # new)"
          "total_entries (final_state (lines_loop mx us mid (line # rest) st)) =
            total_entries st + length (row # new)"
          unfolding eq using new by (simp_all add: st1_def)
        moreover have "\<forall>row\<in>set (row # new). user_id row \<in> us \<and>
            (\<exists>l\<in>set (line # rest). row_of_line mid l row)"
          using new(3) row by auto
        moreover have "total_entries st < mx \<longrightarrow>
            total_entries (final_state (lines_loop mx us mid (line # rest) st)) \<le> mx"
          unfolding eq using new(4) False by simp
        ultimately show ?thesis by blast
      qed
    qed
  qed
qed

lemma lines_loop_Inl:
  "lines_loop mx us mid lines st = Inl (e, s) \<Longrightarrow>
   e = ValueError \<and> (\<exists>line\<in>set lines. bad_rating us line)"
proof (induction lines arbitrary: st)
  case Nil
  then show ?case by simp
next
  case (Cons line rest)
  show ?case
  proof (cases "three_fields line \<and> line_fields line ! 0 \<in> us")
    case False
    from lines_loop_skip [OF this] Cons.prems have "lines_loop mx us mid rest st = Inl (e, s)"
      by simp
    from Cons.IH [OF this] show ?thesis by auto
  next
    case True
    show ?thesis
    proof (cases "py_int (line_fields line ! 1)")
      case (Inl e')
      then have e': "e' = ValueError" by (rule py_int_error)
      from Inl Cons.prems have "e = e'"
        unfolding lines_loop_take [OF True] by simp
      moreover have "bad_rating us line"
        using True Inl e' by (simp add: bad_rating_def)
      ultimately show ?thesis using e' by simp
    next
      case (Inr r)
      with Cons.prems obtain st1 where "lines_loop mx us mid rest st1 = Inl (e, s)"
        unfolding lines_loop_take [OF True] by (auto split: if_splits)
      from Cons.IH [OF this] show ?thesis by auto
    qed
  qed
qed

lemma lines_loop_take_cong:
  assumes "three_fields line \<and> line_fields line ! 0 \<in> us"
    and "\<And>st. lines_loop mx us mid rest st = lines_loop mx us mid rest' st"
  shows "lines_loop mx us mid (line # rest) st = lines_loop mx us mid (line # rest') st"
  unfolding lines_loop_take [OF assms(1)] by (simp add: assms(2) split: sum.splits)

lemma lines_loop_filter:
  "lines_loop mx us mid (filter three_fields lines) st = lines_loop mx us mid lines st"
proof (induction lines arbitrary: st)
  case Nil
  show ?case by simp
next
  case (Cons line rest)
  show ?case
  proof (cases "three_fields line")
    case False
    then have "filter three_fields (line # rest) = filter three_fields rest" by simp
    moreover have "lines_loop mx us mid (line # rest) st = lines_loop mx us mid rest st"
      using False by (intro lines_loop_skip) simp
    ultimately show ?thesis using Cons.IH by simp
  next
    case True
    then have f: "filter three_fields (line # rest) = line # filter three_fields rest" by simp
    show ?thesis
    proof (cases "line_fields line ! 0 \<in> us")
      case False
      then have "lines_loop mx us mid (line # rest) st = lines_loop mx us mid rest st"
        "lines_loop mx us mid (line # filter three_fields rest) st =
         lines_loop mx us mid (filter three_fields rest) st"
        by (intro lines_loop_skip, simp)+
      with f Cons.IH show ?thesis by simp
    next
      case sampled: True
      with True have "three_fields line \<and> line_fields line ! 0 \<in> us" by simp
      then have "lines_loop mx us mid (line # filter three_fields rest) st =
          lines_loop mx us mid (line # rest) st"
        using Cons.IH by (rule lines_loop_take_cong)
      with f show ?thesis by simp
    qed
  qed
qed




lemma files_loop_read_error:
  "files_loop mx ms us (Inl e # files) st = Inl (e, st)"
  by simp

lemma files_loop_unselected:
  "\<not> selected ms fl \<Longrightarrow>
   files_loop mx ms us (Inr fl # files) st =
     (if fl \<noteq> [] \<and> total_entries st \<ge> mx then Inr st else files_loop mx ms us files st)"
  by (cases fl) (simp_all add: selected_def file_movie_id_def Let_def)

lemma files_loop_selected:
  "selected ms fl \<Longrightarrow>
   files_loop mx ms us (Inr fl # files) st =
     (case lines_loop mx us (file_movie_id fl) (tl fl) st of
        Inl x \<Rightarrow> Inl x
      | Inr st' \<Rightarrow> if total_entries st' \<ge> mx then Inr st' else files_loop mx ms us files st')"
  by (cases fl) (simp_all add: selected_def file_movie_id_def Let_def split: sum.splits)

declare files_loop.simps(2) [simp del]

lemma provenance_Cons:
  "\<forall>row\<in>set new. A row \<and> B row \<and> (\<exists>g. Inr g \<in> set files \<and> P g row) \<Longrightarrow>
   \<forall>row\<in>set new. A row \<and> B row \<and> (\<exists>g. Inr g \<in> set (f # files) \<and> P g row)"
  by (metis list.set_intros(2))

lemma files_loop_state:
  "\<exists>new. ratings_data (final_state (files_loop mx ms us files st)) = ratings_data st @ new \<and>
         total_entries (final_state (files_loop mx ms us files st)) =
           total_entries st + length new \<and>
         (\<forall>row\<in>set new. user_id row \<in> us \<and> movie_id row \<in> ms \<and>
            (\<exists>fl. Inr fl \<in> set files \<and> selected ms fl \<and>
               (\<exists>line\<in>set (tl fl). row_of_line (file_movie_id fl) line row))) \<and>
         (total_entries st < mx \<longrightarrow>
            total_entries (final_state (files_loop mx ms us files st)) \<le> mx)"
proof (induction files arbitrary: st)
  case Nil
  show ?case by simp
next
  case (Cons f files)
  show ?case
  proof (cases f)
    case (Inl e)
    then have "final_state (files_loop mx ms us (f # files) st) = st"
      by (simp add: files_loop_read_error)
    then show ?thesis by (intro exI [of _ "[]"]) simp
  next
    case (Inr fl)
    show ?thesis
    proof (cases "selected ms fl")
      case False
      have "final_state (files_loop mx ms us (f # files) st) = st \<and> mx \<le> total_entries st \<or>
            files_loop mx ms us (f # files) st = files_loop mx ms us files st"
        unfolding Inr files_loop_unselected [OF False] by simp
      then show ?thesis
      proof
        assume "final_state (files_loop mx ms us (f # files) st) = st \<and> mx \<le> total_entries st"
        then show ?thesis by (intro exI [of _ "[]"]) simp
      next
        assume eq: "files_loop mx ms us (f # files) st = files_loop mx ms us files st"
        from Cons.IH [of st] obtain new where new:
          "ratings_data (final_state (files_loop mx ms us files st)) = ratings_data st @ new"
          "total_entries (final_state (files_loop mx ms us files st)) =
             total_entries st + length new"
          "\<forall>row\<in>set new. user_id row \<in> us \<and> movie_id row \<in> ms \<and>
              (\<exists>g. Inr g \<in> set files \<and> selected ms g \<and>
                 (\<exists>line\<in>set (tl g). row_of_line (file_movie_id g) line row))"
          "total_entries st < mx \<longrightarrow>
             total_entries (final_state (files_loop mx ms us files st)) \<le> mx"
          by blast
        from new(3) have "\<forall>row\<in>set new. user_id row \<in> us \<and> movie_id row \<in> ms \<and>
              (\<exists>g. Inr g \<in> set (f # files) \<and> selected ms g \<and>
                 (\<exists>line\<in>set (tl g). row_of_line (file_movie_id g) line row))"
          by (rule provenance_Cons)
        with new(1,2,4) show ?thesis unfolding eq by blast
      qed
    next
      case True
      let ?mid = "file_movie_id fl"
      let ?r1 = "lines_loop mx us ?mid (tl fl) st"
      have mid: "?mid \<in> ms" using True by (simp add: selected_def)
      from lines_loop_state [of mx us ?mid "tl fl" st] obtain new1 where new1:
        "ratings_data (final_state ?r1) = ratings_data st @ new1"
        "total_entries (final_state ?r1) = total_entries st + length new1"
        "\<forall>row\<in>set new1. user_id row \<in> us \<and> (\<exists>line\<in>set (tl fl). row_of_line ?mid line row)"
        "total_entries st < mx \<longrightarrow> total_entries (final_state ?r1) \<le> mx"
        by blast
      have prov1: "\<forall>row\<in>set new1. user_id row \<in> us \<and> movie_id row \<in> ms \<and>
              (\<exists>g. Inr g \<in> set (f # files) \<and> selected ms g \<and>
                 (\<exists>line\<in>set (tl g). row_of_line (file_movie_id g) line row))"
      proof
        fix row assume "row \<in> set new1"
        with new1(3) obtain line where l: "user_id row \<in> us" "line \<in> set (tl fl)"
          "row_of_line ?mid line row" by blast
        then have "movie_id row \<in> ms" using mid by (simp add: row_of_line_def)
        with l True Inr show "user_id row \<in> us \<and> movie_id row \<in> ms \<and>
              (\<exists>g. Inr g \<in> set (f # files) \<and> selected ms g \<and>
                 (\<exists>line\<in>set (tl g). row_of_line (file_movie_id g) line row))"
          by auto
      qed
      have stop: ?thesis if "final_state (files_loop mx ms us (f # files) st) = final_state ?r1"
        using that new1 prov1 by metis
      show ?thesis
      proof (cases ?r1)
        case (Inl x)
        then have "files_loop mx ms us (f # files) st = ?r1"
          unfolding Inr files_loop_selected [OF True] by simp
        then show ?thesis by (intro stop) simp
      next
        case r1: (Inr st1)
        show ?thesis
        proof (cases "total_entries st1 \<ge> mx")
          case True
          with r1 have "files_loop mx ms us (f # files) st = ?r1"
            unfolding Inr files_loop_selected [OF \<open>selected ms fl\<close>] by simp
          then show ?thesis by (intro stop) simp
        next
          case False
          with r1 have eq: "files_loop mx ms us (f # files) st = files_loop mx ms us files st1"
            unfolding Inr files_loop_selected [OF \<open>selected ms fl\<close>] by simp
          let ?r2 = "files_loop mx ms us files st1"
          from Cons.IH [of st1] obtain new2 where new2:
            "ratings_data (final_state ?r2) = ratings_data st1 @ new2"
            "total_entries (final_state ?r2) = total_entries st1 + length new2"
            "\<forall>row\<in>set new2. user_id row \<in> us \<and> movie_id row \<in> ms \<and>
                (\<exists>g. Inr g \<in> set files \<and> selected ms g \<and>
                   (\<exists>line\<in>set (tl g). row_of_line (file_movie_id g) line row))"
            "total_entries st1 < mx \<longrightarrow> total_entries (final_state ?r2) \<le> mx"
            by blast
          have st1: "final_state ?r1 = st1" using r1 by simp
          have "ratings_data (final_state (files_loop mx ms us (f # files) st)) =
              ratings_data st @ (new1 @ new2)"
            "total_entries (final_state (files_loop mx ms us (f # files) st)) =
              total_entries st + length (new1 @ new2)"
            unfolding eq using new1(1,2) new2(1,2) st1 by simp_all
          moreover from new2(3) have "\<forall>row\<in>set new2. user_id row \<in> us \<and> movie_id row \<in> ms \<and>
                (\<exists>g. Inr g \<in> set (f # files) \<and> selected ms g \<and>
                   (\<exists>line\<in>set (tl g). row_of_line (file_movie_id g) line row))"
            by (rule provenance_Cons)
          with prov1 have "\<forall>row\<in>set (new1 @ new2). user_id row \<in> us \<and> movie_id row \<in> ms \<and>
                (\<exists>g. Inr g \<in> set (f # files) \<and> selected ms g \<and>
                   (\<exists>line\<in>set (tl g). row_of_line (file_movie_id g) line row))"
            unfolding set_append by blast
          moreover have "total_entries st < mx \<longrightarrow>
              total_entries (final_state (files_loop mx ms us (f # files) st)) \<le> mx"
            unfolding eq using new2(4) False by simp
          ultimately show ?thesis by blast
        qed
      qed
    qed
  qed
qed

lemma files_loop_Inl:
  "files_loop mx ms us files st = Inl (e, s) \<Longrightarrow>
   Inl e \<in> set files \<or>
   e = ValueError \<and>
   (\<exists>fl. Inr fl \<in> set files \<and> selected ms fl \<and> (\<exists>line\<in>set (tl fl). bad_rating us line))"
proof (induction files arbitrary: st)
  case Nil
  then show ?case by simp
next
  case (Cons f files)
  show ?case
  proof (cases f)
    case (Inl e')
    with Cons.prems have "e' = e" by (simp add: files_loop_read_error)
    with Inl show ?thesis by simp
  next
    case (Inr fl)
    show ?thesis
    proof (cases "selected ms fl")
      case False
      from Cons.prems have "files_loop mx ms us files st = Inl (e, s)"
        unfolding Inr files_loop_unselected [OF False] by (simp split: if_splits)
      from Cons.IH [OF this] show ?thesis by auto
    next
      case True
      show ?thesis
      proof (cases "lines_loop mx us (file_movie_id fl) (tl fl) st")
        case (Inl x)
        with Cons.prems have "lines_loop mx us (file_movie_id fl) (tl fl) st = Inl (e, s)"
          unfolding Inr files_loop_selected [OF True] by simp
        from lines_loop_Inl [OF this] True Inr show ?thesis by auto
      next
        case r1: (Inr st1)
        with Cons.prems have "files_loop mx ms us files st1 = Inl (e, s)"
          unfolding Inr files_loop_selected [OF True] by (simp split: if_splits)
        from Cons.IH [OF this] show ?thesis by auto
      qed
    qed
  qed
qed


lemma files_loop_filter:
  "total_entries st < mx \<Longrightarrow>
   files_loop mx ms us (filter (\<lambda>f. \<not> skipped ms f) files) st = files_loop mx ms us files st"
proof (induction files arbitrary: st)
  case Nil
  then show ?case by simp
next
  case (Cons f files)
  show ?case
  proof (cases f)
    case (Inl e)
    then show ?thesis by (simp add: skipped_def files_loop_read_error)
  next
    case (Inr fl)
    show ?thesis
    proof (cases "selected ms fl")
      case False
      then have "filter (\<lambda>f. \<not> skipped ms f) (f # files) = filter (\<lambda>f. \<not> skipped ms f) files"
        using Inr by (simp add: skipped_def)
      moreover have "files_loop mx ms us (f # files) st = files_loop mx ms us files st"
        unfolding Inr files_loop_unselected [OF False] using Cons.prems by simp
      ultimately show ?thesis using Cons.IH [OF Cons.prems] by simp
    next
      case True
      then have flt: "filter (\<lambda>f. \<not> skipped ms f) (Inr fl # files) =
          Inr fl # filter (\<lambda>f. \<not> skipped ms f) files"
        by (simp add: skipped_def)
      show ?thesis
      proof (cases "lines_loop mx us (file_movie_id fl) (tl fl) st")
        case (Inl x)
        then show ?thesis
          unfolding Inr flt files_loop_selected [OF True] by simp
      next
        case r1: (Inr st1)
        show ?thesis
        proof (cases "mx \<le> total_entries st1")
          case True
          with r1 show ?thesis
            unfolding Inr flt files_loop_selected [OF \<open>selected ms fl\<close>] by simp
        next
          case False
          then have "files_loop mx ms us (filter (\<lambda>f. \<not> skipped ms f) files) st1 =
                     files_loop mx ms us files st1"
            by (intro Cons.IH) simp
          with False r1 show ?thesis
            unfolding Inr flt files_loop_selected [OF \<open>selected ms fl\<close>] by simp
        qed
      qed
    qed
  qed
qed

lemma files_loop_map_lines:
  assumes "\<And>fl. selected ms (g fl) = selected ms fl"
    and "\<And>fl. (g fl = []) = (fl = [])"
    and "\<And>fl. file_movie_id (g fl) = file_movie_id fl"
    and "\<And>fl mid st. lines_loop mx us mid (tl (g fl)) st = lines_loop mx us mid (tl fl) st"
  shows "files_loop mx ms us (map (map_sum id g) files) st = files_loop mx ms us files st"
proof (induction files arbitrary: st)
  case Nil
  show ?case by simp
next
  case (Cons f files)
  show ?case
  proof (cases f)
    case (Inl e)
    then show ?thesis by (simp add: files_loop_read_error)
  next
    case (Inr fl)
    show ?thesis
    proof (cases "selected ms fl")
      case False
      then have "\<not> selected ms (g fl)" by (simp add: assms(1))
      from files_loop_unselected [OF this] files_loop_unselected [OF False]
      show ?thesis using Cons.IH by (simp add: Inr assms(2))
    next
      case True
      then have "selected ms (g fl)" by (simp add: assms(1))
      from files_loop_selected [OF this] files_loop_selected [OF True]
      show ?thesis using Cons.IH by (simp add: Inr assms(3,4) split: sum.splits)
    qed
  qed
qed

lemma files_loop_well_formed_lines:
  "files_loop mx ms us (map (map_sum id well_formed_lines) files) st =
   files_loop mx ms us files st"
proof (rule files_loop_map_lines)
  fix fl :: "string list"
  show "selected ms (well_formed_lines fl) = selected ms fl"
    "(well_formed_lines fl = []) = (fl = [])"
    "file_movie_id (well_formed_lines fl) = file_movie_id fl"
    by (cases fl; simp add: well_formed_lines_def selected_def file_movie_id_def)+
  fix mid st
  have "tl (well_formed_lines fl) = filter three_fields (tl fl)"
    by (cases fl) (simp_all add: well_formed_lines_def)
  then show "lines_loop mx us mid (tl (well_formed_lines fl)) st = lines_loop mx us mid (tl fl) st"
    by (simp add: lines_loop_filter)
qed



subsection \<open>The load\<close>

lemma load_ratings_final_state:
  "final_state (load_ratings mx ms us files) =
   ratings_data (final_state (files_loop mx ms us files \<lparr>ratings_data = [], total_entries = 0\<rparr>))"
  by (simp add: load_ratings_def final_state_def split: sum.splits prod.splits)


lemma load_ratings_state:
  assumes "0 < mx"
  shows "length (final_state (load_ratings mx ms us files)) \<le> mx \<and>
     (\<forall>row\<in>set (final_state (load_ratings mx ms us files)).
        movie_id row \<in> ms \<and> user_id row \<in> us \<and>
        (\<exists>fl. Inr fl \<in> set files \<and> selected ms fl \<and>
           (\<exists>line\<in>set (tl fl). row_of_line (file_movie_id fl) line row)))"
proof -
  let ?st0 = "\<lparr>ratings_data = [], total_entries = 0\<rparr>"
  let ?s = "final_state (files_loop mx ms us files ?st0)"
  from files_loop_state [of mx ms us files ?st0] obtain new where new:
    "ratings_data ?s = ratings_data ?st0 @ new"
    "total_entries ?s = total_entries ?st0 + length new"
    "\<forall>row\<in>set new. user_id row \<in> us \<and> movie_id row \<in> ms \<and>
            (\<exists>fl. Inr fl \<in> set files \<and> selected ms fl \<and>
               (\<exists>line\<in>set (tl fl). row_of_line (file_movie_id fl) line row))"
    "total_entries ?st0 < mx \<longrightarrow> total_entries ?s \<le> mx"
    by blast
  from new(1) have "final_state (load_ratings mx ms us files) = new"
    by (simp add: load_ratings_final_state)
  with new(2,3,4) assms show ?thesis by auto
qed

lemma load_ratings_Inr:
  assumes "load_ratings mx ms us files = Inr rows" and "0 < mx"
  shows "length rows \<le> mx \<and>
     (\<forall>row\<in>set rows. movie_id row \<in> ms \<and> user_id row \<in> us \<and>
        (\<exists>fl. Inr fl \<in> set files \<and> selected ms fl \<and>
           (\<exists>line\<in>set (tl fl). row_of_line (file_movie_id fl) line row)))"
  using load_ratings_state [OF assms(2), of ms us files] unfolding assms(1) by simp

lemma load_ratings_Inl:
  assumes "load_ratings mx ms us files = Inl (e, rows)"
  shows "Inl e \<in> set files \<or>
     e = ValueError \<and>
     (\<exists>fl. Inr fl \<in> set files \<and> selected ms fl \<and> (\<exists>line\<in>set (tl fl). bad_rating us line))"
proof -
  let ?st0 = "\<lparr>ratings_data = [], total_entries = 0\<rparr>"
  from assms obtain s where "files_loop mx ms us files ?st0 = Inl (e, s)"
    by (cases "files_loop mx ms us files ?st0") (auto simp: load_ratings_def)
  then show ?thesis by (rule files_loop_Inl)
qed

lemma load_ratings_filter:
  "0 < mx \<Longrightarrow>
   load_ratings mx ms us (filter (\<lambda>f. \<not> skipped ms f) files) = load_ratings mx ms us files"
  by (simp add: load_ratings_def files_loop_filter)

lemma load_ratings_well_formed_lines:
  "load_ratings mx ms us (map (map_sum id well_formed_lines) files) = load_ratings mx ms us files"
  by (simp add: load_ratings_def files_loop_well_formed_lines)





text \<open>
  C9 (as amended). The rating loader never accumulates more than \<open>max_entries\<close> =
  1,000,000 rows: when the loop ends, by returning or by raising, \<open>ratings_data\<close> holds
  at most \<open>max_entries\<close> rows (and rows are only ever appended to it), each with a movie
  id of the movie set, a user id of the sampled set and an integer rating parsed from the
  second field of a three-field line of a selected file. Empty files and files whose
  first-line id is not in the movie set are skipped (the outcome is that of the other
  files alone), and so is every line that does not split on commas into exactly three
  fields. The loader is not total on arbitrary file contents; it returns whenever every
  file is opened and read without an exception and no three-field line of a sampled user
  in a selected file has a second field that \<^verbatim>\<open>int\<close> rejects.
\<close>

theorem load_ratings_capped_rows:
  "length (final_state (load_ratings max_entries ms us files)) \<le> max_entries \<and>
   length (final_state (load_ratings max_entries ms us files)) \<le> 1000000 \<and>
   (\<forall>row\<in>set (final_state (load_ratings max_entries ms us files)).
      movie_id row \<in> ms \<and> user_id row \<in> us \<and>
      (\<exists>fl. Inr fl \<in> set files \<and> selected ms fl \<and>
         (\<exists>line\<in>set (tl fl). row_of_line (file_movie_id fl) line row))) \<and>
   load_ratings max_entries ms us (filter (\<lambda>f. \<not> skipped ms f) files) =
     load_ratings max_entries ms us files \<and>
   load_ratings max_entries ms us (map (map_sum id well_formed_lines) files) =
     load_ratings max_entries ms us files \<and>
   ((\<forall>e. Inl e \<notin> set files) \<and>
    (\<forall>fl. Inr fl \<in> set files \<and> selected ms fl \<longrightarrow>
       (\<forall>line\<in>set (tl fl). \<not> bad_rating us line)) \<longrightarrow>
      (\<exists>rows. load_ratings max_entries ms us files = Inr rows))"
proof -
  have pos: "0 < max_entries" by (simp add: max_entries_def)
  note st = load_ratings_state [OF pos, of ms us files]
  from st have "length (final_state (load_ratings max_entries ms us files)) \<le> 1000000"
    by (simp add: max_entries_def)
  moreover have "(\<forall>e. Inl e \<notin> set files) \<and>
    (\<forall>fl. Inr fl \<in> set files \<and> selected ms fl \<longrightarrow>
       (\<forall>line\<in>set (tl fl). \<not> bad_rating us line)) \<longrightarrow>
      (\<exists>rows. load_ratings max_entries ms us files = Inr rows)"
  proof
    assume ok: "(\<forall>e. Inl e \<notin> set files) \<and>
      (\<forall>fl. Inr fl \<in> set files \<and> selected ms fl \<longrightarrow>
         (\<forall>line\<in>set (tl fl). \<not> bad_rating us line))"
    show "\<exists>rows. load_ratings max_entries ms us files = Inr rows"
    proof (cases "load_ratings max_entries ms us files")
      case (Inl x)
      obtain e rows where "x = (e, rows)" by (cases x)
      with Inl have "load_ratings max_entries ms us files = Inl (e, rows)" by simp
      from load_ratings_Inl [OF this] ok show ?thesis by blast
    next
      case (Inr rows)
      then show ?thesis by blast
    qed
  qed
  ultimately show ?thesis
    using st load_ratings_filter [OF pos, of ms us files]
      load_ratings_well_formed_lines [of max_entries ms us files]
    by (intro conjI) simp_all
qed

theorem load_ratings_capped_rows_witness:
  "list_all (\<lambda>f. \<not> isl f \<and>
               (selected (set [''1'']) (projr f) \<longrightarrow>
                  list_all (\<lambda>line. \<not> bad_rating (set [''7'', ''8'']) line) (tl (projr f))))
     ([Inr [], Inr [''2:\<newline>'', ''7,x,d\<newline>''],
       Inr [''1:\<newline>'', ''7,5,2005-09-06\<newline>'', ''junk\<newline>'', ''9,3,d\<newline>'', ''8, 4 ,d\<newline>'']]
      :: (py_error + string list) list) \<and>
   load_ratings max_entries (set [''1'']) (set [''7'', ''8''])
     [Inr [], Inr [''2:\<newline>'', ''7,x,d\<newline>''],
      Inr [''1:\<newline>'', ''7,5,2005-09-06\<newline>'', ''junk\<newline>'', ''9,3,d\<newline>'', ''8, 4 ,d\<newline>'']] =
   Inr [\<lparr>movie_id = ''1'', user_id = ''7'', rating = 5, date = ''2005-09-06''\<rparr>,
        \<lparr>movie_id = ''1'', user_id = ''8'', rating = 4, date = ''d''\<rparr>] \<and>
   length [\<lparr>movie_id = ''1'', user_id = ''7'', rating = 5, date = ''2005-09-06''\<rparr>,
        \<lparr>movie_id = ''1'', user_id = ''8'', rating = 4, date = ''d''\<rparr>] \<le> max_entries \<and>
   load_ratings max_entries (set [''1'']) (set [''7'', ''8''])
     [Inr [''1:\<newline>'', ''7,5,2005-09-06\<newline>'', ''8,x,d\<newline>'', ''8,4,d\<newline>''], Inl OSError] =
   Inl (ValueError, [\<lparr>movie_id = ''1'', user_id = ''7'', rating = 5, date = ''2005-09-06''\<rparr>]) \<and>
   length [\<lparr>movie_id = ''1'', user_id = ''7'', rating = 5, date = ''2005-09-06''\<rparr>] \<le> max_entries"
proof -
  let ?ms = "set [''1'']" and ?us = "set [''7'', ''8'']"
  let ?files = "[Inr [], Inr [''2:\<newline>'', ''7,x,d\<newline>''],
      Inr [''1:\<newline>'', ''7,5,2005-09-06\<newline>'', ''junk\<newline>'', ''9,3,d\<newline>'', ''8, 4 ,d\<newline>'']]
      :: (py_error + string list) list"
  let ?rows = "[\<lparr>movie_id = ''1'', user_id = ''7'', rating = 5, date = ''2005-09-06''\<rparr>,
        \<lparr>movie_id = ''1'', user_id = ''8'', rating = 4, date = ''d''\<rparr>]"
  let ?files2 = "[Inr [''1:\<newline>'', ''7,5,2005-09-06\<newline>'', ''8,x,d\<newline>'', ''8,4,d\<newline>''], Inl OSError]"
  let ?rows2 = "[\<lparr>movie_id = ''1'', user_id = ''7'', rating = 5, date = ''2005-09-06''\<rparr>]"
  have h: "list_all (\<lambda>f. \<not> isl f \<and>
               (selected ?ms (projr f) \<longrightarrow>
                  list_all (\<lambda>line. \<not> bad_rating ?us line) (tl (projr f)))) ?files"
    by (simp add: selected_def file_movie_id_def bad_rating_def three_fields_def line_fields_def
        py_strip_def py_isspace_def py_int_def py_int_isspace_def is_digit_def)
  then have h1: "\<forall>e. Inl e \<notin> set ?files"
    and h2: "\<forall>fl. Inr fl \<in> set ?files \<and> selected ?ms fl \<longrightarrow>
        (\<forall>line\<in>set (tl fl). \<not> bad_rating ?us line)"
    unfolding list_all_iff by force+
  have e: "load_ratings max_entries ?ms ?us ?files = Inr ?rows"
    by (simp add: load_ratings_def files_loop.simps lines_loop.simps py_strip_def py_isspace_def
        py_int_def py_int_isspace_def is_digit_def max_entries_def digits_value_def Let_def)
  have e2: "load_ratings max_entries ?ms ?us ?files2 = Inl (ValueError, ?rows2)"
    by (simp add: load_ratings_def files_loop.simps lines_loop.simps py_strip_def py_isspace_def
        py_int_def py_int_isspace_def is_digit_def max_entries_def digits_value_def Let_def)
  from load_ratings_capped_rows [of ?ms ?us ?files] h1 h2 e
  have n: "length ?rows \<le> max_entries" by simp
  from load_ratings_capped_rows [of ?ms ?us ?files2] e2
  have n2: "length ?rows2 \<le> max_entries" by simp
  show ?thesis using h e n e2 n2 by (intro conjI) (assumption+)
qed

text \<open>
  The loader is not total on arbitrary file contents: a three-field line of a sampled
  user whose second field is no integer literal raises \<^verbatim>\<open>ValueError\<close>.
\<close>

theorem load_ratings_not_total:
  "load_ratings max_entries (set [''1'']) (set [''7''])
     [Inr [''1:\<newline>'', ''7,x,2005-09-06\<newline>'']] = Inl (ValueError, [])"
  by (simp add: load_ratings_def files_loop.simps lines_loop.simps py_strip_def py_isspace_def
      py_int_def py_int_isspace_def is_digit_def max_entries_def)




subsection \<open>The sampled users\<close>

lemma permutation_length:
  "distinct p \<Longrightarrow> set p = {0..<n} \<Longrightarrow> length p = n"
  using distinct_card [of p] by simp

lemma np_random_choice_sample:
  assumes "distinct a" and "distinct (permutation (length a))"
    and "set (permutation (length a)) = {0..<length a}"
    and "np_random_choice permutation a n = Inr xs"
  shows "length xs = n \<and> distinct xs \<and> set xs \<subseteq> set a"
proof -
  let ?p = "permutation (length a)"
  from assms(4) have n: "n \<le> length a" and xs: "xs = map (\<lambda>i. a ! i) (take n ?p)"
    by (auto simp: np_random_choice_def split: if_splits)
  have lp: "length ?p = length a" using assms(2,3) by (rule permutation_length)
  have sub: "set (take n ?p) \<subseteq> {0..<length a}"
    using set_take_subset [of n ?p] assms(3) by simp
  have "length xs = n" using xs n lp by simp
  moreover have "distinct xs"
    unfolding xs distinct_map
  proof
    show "distinct (take n ?p)" using assms(2) by simp
    show "inj_on ((!) a) (set (take n ?p))"
      using assms(1) sub by (intro inj_on_nth) auto
  qed
  moreover have "set xs \<subseteq> set a"
    using sub unfolding xs by auto
  ultimately show ?thesis by simp
qed

text \<open>
  C5. The user ids are the keys of a dictionary (pairwise distinct) and the seeded
  generator's permutation is a permutation of the positions. Then the sampled user ids
  are 30 pairwise distinct keys of \<open>user_profiles\<close>; the sampling succeeds when
  there are at least 30 users; and every row of \<open>ratings_data\<close> has its user id in the
  sampled set and its movie id among the keys of \<open>movie_features\<close>.
\<close>

theorem sampled_users_and_rows:
  assumes "distinct (map fst user_profiles)"
    and "distinct (permutation (length user_profiles))"
    and "set (permutation (length user_profiles)) = {0..<length user_profiles}"
  shows "(sampled_user_ids permutation user_profiles = Inr ids \<longrightarrow>
            length ids = 30 \<and> distinct ids \<and> set ids \<subseteq> set (map fst user_profiles)) \<and>
         (30 \<le> length user_profiles \<longrightarrow>
            (\<exists>s. sampled_user_ids permutation user_profiles = Inr s)) \<and>
         (sampled_ratings permutation user_profiles movie_features rating_files = Inr rows \<longrightarrow>
            (\<exists>s. sampled_user_ids permutation user_profiles = Inr s \<and>
               (\<forall>row\<in>set rows. user_id row \<in> set s \<and>
                  movie_id row \<in> set (map fst movie_features))))"
proof -
  have a: "sampled_user_ids permutation user_profiles = Inr ids \<longrightarrow>
            length ids = 30 \<and> distinct ids \<and> set ids \<subseteq> set (map fst user_profiles)"
  proof
    assume "sampled_user_ids permutation user_profiles = Inr ids"
    then have "np_random_choice permutation (map fst user_profiles) 30 = Inr ids"
      by (simp add: sampled_user_ids_def k_sampled_def)
    with assms np_random_choice_sample [of "map fst user_profiles" permutation 30 ids]
    show "length ids = 30 \<and> distinct ids \<and> set ids \<subseteq> set (map fst user_profiles)"
      by simp
  qed
  have b: "30 \<le> length user_profiles \<longrightarrow>
            (\<exists>s. sampled_user_ids permutation user_profiles = Inr s)"
    by (auto simp: sampled_user_ids_def k_sampled_def np_random_choice_def)
  have c: "sampled_ratings permutation user_profiles movie_features rating_files = Inr rows \<longrightarrow>
            (\<exists>s. sampled_user_ids permutation user_profiles = Inr s \<and>
               (\<forall>row\<in>set rows. user_id row \<in> set s \<and>
                  movie_id row \<in> set (map fst movie_features)))"
  proof
    assume r: "sampled_ratings permutation user_profiles movie_features rating_files = Inr rows"
    then obtain s where s: "sampled_user_ids permutation user_profiles = Inr s"
      and l: "load_ratings max_entries (set (map fst movie_features)) (set s) rating_files = Inr rows"
      by (cases "sampled_user_ids permutation user_profiles") (auto simp: sampled_ratings_def)
    have "0 < max_entries" by (simp add: max_entries_def)
    from load_ratings_Inr [OF l this] s
    show "\<exists>s. sampled_user_ids permutation user_profiles = Inr s \<and>
               (\<forall>row\<in>set rows. user_id row \<in> set s \<and>
                  movie_id row \<in> set (map fst movie_features))"
      by blast
  qed
  from a b c show ?thesis by blast
qed

theorem sampled_users_and_rows_witness:
  "distinct (map fst (map (\<lambda>n. (replicate (Suc n) CHR ''u'', \<lparr>feature_preferences = []\<rparr>)) [0..<31])) \<and>
   distinct [0..<length (map (\<lambda>n. (replicate (Suc n) CHR ''u'', \<lparr>feature_preferences = []\<rparr>)) [0..<31])] \<and>
   set [0..<length (map (\<lambda>n. (replicate (Suc n) CHR ''u'', \<lparr>feature_preferences = []\<rparr>)) [0..<31])] =
     {0..<length (map (\<lambda>n. (replicate (Suc n) CHR ''u'', \<lparr>feature_preferences = []\<rparr>)) [0..<31])} \<and>
   (\<exists>s. sampled_user_ids (\<lambda>n. [0..<n])
          (map (\<lambda>n. (replicate (Suc n) CHR ''u'', \<lparr>feature_preferences = []\<rparr>)) [0..<31]) = Inr s \<and>
        length s = 30 \<and> distinct s \<and> ''u'' \<in> set s \<and> ''v'' \<notin> set s \<and>
        set s \<subseteq> set (map fst (map (\<lambda>n. (replicate (Suc n) CHR ''u'', \<lparr>feature_preferences = []\<rparr>)) [0..<31])) \<and>
        sampled_ratings (\<lambda>n. [0..<n])
          (map (\<lambda>n. (replicate (Suc n) CHR ''u'', \<lparr>feature_preferences = []\<rparr>)) [0..<31])
          [(''1'', [0])] [Inr [''1:\<newline>'', ''u,5,d\<newline>'', ''v,4,d\<newline>'']] =
          Inr [\<lparr>movie_id = ''1'', user_id = ''u'', rating = 5, date = ''d''\<rparr>] \<and>
        list_all (\<lambda>row. user_id row \<in> set s \<and> movie_id row \<in> set (map fst [(''1'', [0::int])]))
          [\<lparr>movie_id = ''1'', user_id = ''u'', rating = 5, date = ''d''\<rparr>])"
proof -
  let ?g = "\<lambda>n. (replicate (Suc n) CHR ''u'', \<lparr>feature_preferences = []\<rparr>)"
  let ?U = "map ?g [0..<31]"
  let ?P = "\<lambda>n. [0..<n]"
  let ?rows = "[\<lparr>movie_id = ''1'', user_id = ''u'', rating = 5, date = ''d''\<rparr>]"
  let ?files = "[Inr [''1:\<newline>'', ''u,5,d\<newline>'', ''v,4,d\<newline>'']] :: (py_error + string list) list"
  have h1: "distinct (map fst ?U)"
    by (simp add: distinct_map comp_def inj_on_def del: upt_rec_numeral)
  have h2: "distinct (?P (length ?U))" by (simp del: upt_rec_numeral)
  have h3: "set (?P (length ?U)) = {0..<length ?U}" by (simp del: upt_rec_numeral)
  have len: "30 \<le> length ?U" by (simp del: upt_rec_numeral)
  note inst = sampled_users_and_rows [of ?U ?P, OF h1 h2 h3]
  from inst [of undefined "[]" "[]" "[]"] len obtain s where s: "sampled_user_ids ?P ?U = Inr s"
    by blast
  have su: "sampled_user_ids ?P ?U = Inr (map ((!) (map fst ?U)) (take 30 (?P (length ?U))))"
    by (simp add: sampled_user_ids_def np_random_choice_def k_sampled_def
        del: upt_rec_numeral map_map)
  have tk: "take 30 (?P (length ?U)) = [0..<30]"
    by (simp add: take_upt del: upt_rec_numeral)
  have mp: "map ((!) (map fst ?U)) [0..<30] = map (\<lambda>n. replicate (Suc n) CHR ''u'') [0..<30]"
    by (rule map_cong [OF refl]) (simp del: upt_rec_numeral)
  have s_eq: "s = map (\<lambda>n. replicate (Suc n) CHR ''u'') [0..<30]"
    using s unfolding su tk mp by simp
  have m1: "''u'' \<in> set s"
    unfolding s_eq set_map by (rule image_eqI [where x = 0]) (simp_all del: upt_rec_numeral)
  have m2: "''v'' \<notin> set s"
    unfolding s_eq by (auto simp del: upt_rec_numeral)
  have "load_ratings max_entries (set (map fst [(''1'', [0::int])])) (set s) ?files = Inr ?rows"
    using m1 m2
    by (simp add: load_ratings_def files_loop.simps lines_loop.simps py_strip_def py_isspace_def
        py_int_def py_int_isspace_def is_digit_def max_entries_def digits_value_def Let_def)
  then have ev: "sampled_ratings ?P ?U [(''1'', [0])] ?files = Inr ?rows"
    using s by (simp add: sampled_ratings_def del: upt_rec_numeral)
  from inst [of s "[(''1'', [0])]" ?files ?rows] s ev
  have p: "length s = 30" "distinct s" "set s \<subseteq> set (map fst ?U)"
    "\<forall>row\<in>set ?rows. user_id row \<in> set s \<and> movie_id row \<in> set (map fst [(''1'', [0::int])])"
    by auto
  from p(4) have la: "list_all (\<lambda>row. user_id row \<in> set s \<and> movie_id row \<in> set (map fst [(''1'', [0::int])])) ?rows"
    by (simp add: list_all_iff)
  show ?thesis
    using h1 h2 h3 s p(1,2,3) m1 m2 ev la
    by (intro conjI exI [of _ s]) (assumption+)
qed

subsection \<open>Rating labels\<close>

text \<open>
  C2. For every integer rating r from 1 to 5 the binarized label is 1 exactly when
  r is at least 4 (that is, r is 4 or 5), and 0 exactly when r is 1, 2 or 3.
\<close>

theorem label_high_low:
  "r \<in> {1..5} \<Longrightarrow>
     (label r = 1 \<longleftrightarrow> r \<ge> 4) \<and> (label r = 1 \<longleftrightarrow> r = 4 \<or> r = 5) \<and>
     (label r = 0 \<longleftrightarrow> r = 1 \<or> r = 2 \<or> r = 3) \<and> (label r = 1 \<or> label r = 0)"
  by (auto simp: label_def)

theorem label_high_low_witness:
  "(4::int) \<in> {1..5} \<and> label 4 = 1 \<and> (3::int) \<in> {1..5} \<and> label 3 = 0"
  using label_high_low [of 4] label_high_low [of 3] by simp

subsection \<open>The movie feature matrix\<close>

lemma loc_set_list_index:
  "r \<in> set (index df) \<Longrightarrow> index (loc_set_list df r cs v) = index df"
  by (simp add: loc_set_list_def Let_def)

lemma loc_set_list_columns:
  "set (columns df) \<subseteq> set (columns (loc_set_list df r cs v))"
  by (simp add: loc_set_list_def Let_def)

lemma loc_set_list_cells:
  "r \<in> set (index df) \<Longrightarrow> c' \<in> set (columns df) \<Longrightarrow>
   cells (loc_set_list df r cs v) r' c' = (if r' = r \<and> c' \<in> set cs then Val v else cells df r' c')"
  by (simp add: loc_set_list_def Let_def)

lemma fill_movies_frame:
  "fst ` set items \<subseteq> set (index df) \<Longrightarrow>
   index (fill_movies df items) = index df \<and>
   set (columns df) \<subseteq> set (columns (fill_movies df items)) \<and>
   (\<forall>m f. f \<in> set (columns df) \<longrightarrow>
      cells (fill_movies df items) m f =
        (if \<exists>fs. (m, fs) \<in> set items \<and> f \<in> set fs then Val 1 else cells df m f))"
proof (induction items arbitrary: df)
  case Nil
  then show ?case by simp
next
  case (Cons item items)
  obtain mid features where item: "item = (mid, features)" by (cases item)
  let ?df = "loc_set_list df mid features 1"
  have mid: "mid \<in> set (index df)" using Cons.prems item by simp
  have idx: "index ?df = index df" using mid by (rule loc_set_list_index)
  have cols: "set (columns df) \<subseteq> set (columns ?df)" by (rule loc_set_list_columns)
  have "fst ` set items \<subseteq> set (index ?df)" using Cons.prems idx by simp
  from Cons.IH [OF this] have IH:
    "index (fill_movies ?df items) = index ?df"
    "set (columns ?df) \<subseteq> set (columns (fill_movies ?df items))"
    "\<And>m f. f \<in> set (columns ?df) \<Longrightarrow>
      cells (fill_movies ?df items) m f =
        (if \<exists>fs. (m, fs) \<in> set items \<and> f \<in> set fs then Val 1 else cells ?df m f)"
    by blast+
  have "cells (fill_movies df (item # items)) m f =
        (if \<exists>fs. (m, fs) \<in> set (item # items) \<and> f \<in> set fs then Val 1 else cells df m f)"
    if f: "f \<in> set (columns df)" for m f
  proof -
    have "f \<in> set (columns ?df)" using f cols by blast
    from IH(3) [OF this] loc_set_list_cells [OF mid f, of features 1 m]
    show ?thesis unfolding item by auto
  qed
  with IH(1,2) idx cols show ?case unfolding item by auto
qed

text \<open>
  C1. The movie feature matrix is a one-hot encoding: for every movie id m of the
  dictionary \<open>movie_features\<close> and every feature id f of the feature mapping, the entry at
  (m, f) is 1 if f occurs in \<open>movie_features[m]\<close> and 0 otherwise, so it is 0 or 1.
\<close>

theorem movie_feature_matrix_one_hot:
  assumes "distinct (map fst movie_features)"
    and "(m, fs) \<in> set movie_features" and "f \<in> set (map fst id_to_feature)"
  shows "cell_at (movie_feature_matrix movie_features id_to_feature) m f =
           Inr (Val (if f \<in> set fs then 1 else 0)) \<and>
         cell_at (movie_feature_matrix movie_features id_to_feature) m f \<in> {Inr (Val 0), Inr (Val 1)}"
proof -
  let ?df0 = "new_frame (0::int) (map fst movie_features) (map fst id_to_feature)"
  let ?M = "movie_feature_matrix movie_features id_to_feature"
  have M: "?M = fill_movies ?df0 movie_features"
    by (simp add: movie_feature_matrix_def)
  have "fst ` set movie_features \<subseteq> set (index ?df0)" by (simp add: new_frame_def)
  from fill_movies_frame [OF this] have fr:
    "index ?M = index ?df0" "set (columns ?df0) \<subseteq> set (columns ?M)"
    "\<And>m f. f \<in> set (columns ?df0) \<Longrightarrow>
      cells ?M m f = (if \<exists>fs. (m, fs) \<in> set movie_features \<and> f \<in> set fs then Val 1 else cells ?df0 m f)"
    unfolding M by blast+
  have m: "m \<in> set (index ?M)" using assms(2) fr(1) by (force simp: new_frame_def)
  have f0: "f \<in> set (columns ?df0)" using assms(3) by (simp add: new_frame_def)
  then have f: "f \<in> set (columns ?M)" using fr(2) by blast
  have uniq: "fs' = fs" if "(m, fs') \<in> set movie_features" for fs'
    using assms(1,2) that by (meson eq_key_imp_eq_value)
  have "(\<exists>fs'. (m, fs') \<in> set movie_features \<and> f \<in> set fs') \<longleftrightarrow> f \<in> set fs"
    using assms(2) uniq by blast
  with fr(3) [OF f0, of m] have "cells ?M m f = Val (if f \<in> set fs then 1 else 0)"
    by (simp add: new_frame_def)
  with m f show ?thesis by (simp add: cell_at_def)
qed

theorem movie_feature_matrix_one_hot_witness:
  "distinct (map fst [(''1'', [0, 2]), (''2'', [])]) \<and>
   (''1'', [0, 2]) \<in> set [(''1'', [0, 2 :: int]), (''2'', [])] \<and>
   (0 :: int) \<in> set (map fst [(0, ''Genre_Drama''), (1, ''Decade_1990''), (2, ''Runtime_90-120'')]) \<and>
   (1 :: int) \<in> set (map fst [(0, ''Genre_Drama''), (1, ''Decade_1990''), (2, ''Runtime_90-120'')]) \<and>
   cell_at (movie_feature_matrix [(''1'', [0, 2]), (''2'', [])]
        [(0, ''Genre_Drama''), (1, ''Decade_1990''), (2, ''Runtime_90-120'')]) ''1'' 0 = Inr (Val 1) \<and>
   cell_at (movie_feature_matrix [(''1'', [0, 2]), (''2'', [])]
        [(0, ''Genre_Drama''), (1, ''Decade_1990''), (2, ''Runtime_90-120'')]) ''1'' 1 = Inr (Val 0)"
proof -
  let ?mf = "[(''1'', [0, 2 :: int]), (''2'', [])]"
  let ?names = "[(0 :: int, ''Genre_Drama''), (1, ''Decade_1990''), (2, ''Runtime_90-120'')]"
  have h1: "distinct (map fst ?mf)" by simp
  have h2: "(''1'', [0, 2]) \<in> set ?mf" by simp
  have h3: "0 \<in> set (map fst ?names)" and h4: "1 \<in> set (map fst ?names)" by simp_all
  from movie_feature_matrix_one_hot [OF h1 h2 h3] movie_feature_matrix_one_hot [OF h1 h2 h4]
    h1 h2 h3 h4
  show ?thesis by simp
qed

subsection \<open>The user feature matrix\<close>

lemma loc_set_index:
  "r \<in> set (index df) \<Longrightarrow> index (loc_set df r c v) = index df"
  by (simp add: loc_set_def loc_set_list_index)

lemma loc_set_columns:
  "set (columns df) \<subseteq> set (columns (loc_set df r c v))"
  unfolding loc_set_def by (rule loc_set_list_columns)

lemma loc_set_cells:
  "r \<in> set (index df) \<Longrightarrow> c' \<in> set (columns df) \<Longrightarrow>
   cells (loc_set df r c v) r' c' = (if r' = r \<and> c' = c then Val v else cells df r' c')"
  by (simp add: loc_set_def loc_set_list_cells)

lemma fill_preferences_frame:
  "uid \<in> set (index df) \<Longrightarrow> distinct (map fst prefs) \<Longrightarrow>
   index (fill_preferences df uid prefs) = index df \<and>
   set (columns df) \<subseteq> set (columns (fill_preferences df uid prefs)) \<and>
   (\<forall>r c. c \<in> set (columns df) \<longrightarrow>
      cells (fill_preferences df uid prefs) r c =
        (if r = uid then (case map_of prefs c of Some x \<Rightarrow> Val x | None \<Rightarrow> cells df r c)
         else cells df r c))"
proof (induction prefs arbitrary: df)
  case Nil
  then show ?case by simp
next
  case (Cons item prefs)
  obtain fid x where item: "item = (fid, x)" by (cases item)
  let ?df = "loc_set df uid fid x"
  have idx: "index ?df = index df" using Cons.prems(1) by (rule loc_set_index)
  have cols: "set (columns df) \<subseteq> set (columns ?df)" by (rule loc_set_columns)
  have fresh: "map_of prefs fid = None"
    using Cons.prems(2) item by (simp add: map_of_eq_None_iff)
  have "uid \<in> set (index ?df)" "distinct (map fst prefs)"
    using Cons.prems idx by simp_all
  from Cons.IH [OF this] have IH:
    "index (fill_preferences ?df uid prefs) = index ?df"
    "set (columns ?df) \<subseteq> set (columns (fill_preferences ?df uid prefs))"
    "\<And>r c. c \<in> set (columns ?df) \<Longrightarrow>
      cells (fill_preferences ?df uid prefs) r c =
        (if r = uid then (case map_of prefs c of Some x \<Rightarrow> Val x | None \<Rightarrow> cells ?df r c)
         else cells ?df r c)"
    by blast+
  have "cells (fill_preferences df uid (item # prefs)) r c =
        (if r = uid then (case map_of (item # prefs) c of Some x \<Rightarrow> Val x | None \<Rightarrow> cells df r c)
         else cells df r c)"
    if c: "c \<in> set (columns df)" for r c
  proof -
    have "c \<in> set (columns ?df)" using c cols by blast
    from IH(3) [OF this] loc_set_cells [OF Cons.prems(1) c, of fid x r] fresh
    show ?thesis unfolding item by (auto split: option.splits)
  qed
  with IH(1,2) idx cols show ?case unfolding item by auto
qed

lemma fill_users_frame:
  "fst ` set items \<subseteq> set (index df) \<Longrightarrow> distinct (map fst items) \<Longrightarrow>
   (\<forall>p\<in>snd ` set items. distinct (map fst (feature_preferences p))) \<Longrightarrow>
   index (fill_users df items) = index df \<and>
   set (columns df) \<subseteq> set (columns (fill_users df items)) \<and>
   (\<forall>r c. c \<in> set (columns df) \<longrightarrow>
      cells (fill_users df items) r c =
        (case map_of items r of
           None \<Rightarrow> cells df r c
         | Some p \<Rightarrow> (case map_of (feature_preferences p) c of
                        Some x \<Rightarrow> Val x | None \<Rightarrow> cells df r c)))"
proof (induction items arbitrary: df)
  case Nil
  then show ?case by simp
next
  case (Cons item items)
  obtain uid p where item: "item = (uid, p)" by (cases item)
  let ?df = "fill_preferences df uid (feature_preferences p)"
  have uid: "uid \<in> set (index df)" using Cons.prems(1) item by simp
  have dp: "distinct (map fst (feature_preferences p))" using Cons.prems(3) item by simp
  from fill_preferences_frame [OF uid dp] have st:
    "index ?df = index df" "set (columns df) \<subseteq> set (columns ?df)"
    "\<And>r c. c \<in> set (columns df) \<Longrightarrow>
      cells ?df r c =
        (if r = uid then (case map_of (feature_preferences p) c of Some x \<Rightarrow> Val x | None \<Rightarrow> cells df r c)
         else cells df r c)"
    by blast+
  have fresh: "map_of items uid = None"
    using Cons.prems(2) item by (simp add: map_of_eq_None_iff)
  have "fst ` set items \<subseteq> set (index ?df)" "distinct (map fst items)"
    "\<forall>p\<in>snd ` set items. distinct (map fst (feature_preferences p))"
    using Cons.prems st(1) by simp_all
  from Cons.IH [OF this] have IH:
    "index (fill_users ?df items) = index ?df"
    "set (columns ?df) \<subseteq> set (columns (fill_users ?df items))"
    "\<And>r c. c \<in> set (columns ?df) \<Longrightarrow>
      cells (fill_users ?df items) r c =
        (case map_of items r of
           None \<Rightarrow> cells ?df r c
         | Some p \<Rightarrow> (case map_of (feature_preferences p) c of
                        Some x \<Rightarrow> Val x | None \<Rightarrow> cells ?df r c))"
    by blast+
  have "cells (fill_users df (item # items)) r c =
        (case map_of (item # items) r of
           None \<Rightarrow> cells df r c
         | Some p \<Rightarrow> (case map_of (feature_preferences p) c of
                        Some x \<Rightarrow> Val x | None \<Rightarrow> cells df r c))"
    if c: "c \<in> set (columns df)" for r c
  proof -
    have "c \<in> set (columns ?df)" using c st(2) by blast
    from IH(3) [OF this] st(3) [OF c, of r] fresh
    show ?thesis unfolding item by (auto split: option.splits)
  qed
  with IH(1,2) st(1,2) show ?case unfolding item by auto
qed

lemma sampled_user_profiles_from_distinct:
  "distinct (map fst acc @ ids) \<Longrightarrow> set ids \<subseteq> fst ` set user_profiles \<Longrightarrow>
   sampled_user_profiles_from acc user_profiles ids =
     Inr (acc @ map (\<lambda>u. (u, the (map_of user_profiles u))) ids)"
proof (induction ids arbitrary: acc)
  case Nil
  then show ?case by simp
next
  case (Cons uid ids)
  from Cons.prems(2) obtain p where p: "map_of user_profiles uid = Some p"
    by (cases "map_of user_profiles uid") (auto simp: map_of_eq_None_iff)
  have new: "dict_set acc uid p = acc @ [(uid, p)]"
    using Cons.prems(1) by (auto simp: dict_set_def)
  have "distinct (map fst (acc @ [(uid, p)]) @ ids)" using Cons.prems(1) by simp
  moreover have "set ids \<subseteq> fst ` set user_profiles" using Cons.prems(2) by simp
  ultimately have "sampled_user_profiles_from (acc @ [(uid, p)]) user_profiles ids =
     Inr ((acc @ [(uid, p)]) @ map (\<lambda>u. (u, the (map_of user_profiles u))) ids)"
    by (rule Cons.IH)
  with p new show ?case by simp
qed

text \<open>
  C4. The user feature matrix is defined everywhere, with -1 for a missing preference:
  for every sampled user u and every feature id f of the feature mapping, the entry at
  (u, f) is the preference ratio stored for f in the profile of u when f is a key of
  that user's preference dictionary, and -1 otherwise. The sampled ids are pairwise
  distinct keys of \<open>user_profiles\<close>, and the dictionaries have pairwise distinct keys.
\<close>

theorem user_feature_matrix_sentinel:
  assumes "distinct (map fst user_profiles)"
    and "\<forall>p\<in>snd ` set user_profiles. distinct (map fst (feature_preferences p))"
    and "distinct sampled_ids" and "set sampled_ids \<subseteq> set (map fst user_profiles)"
  shows "\<exists>M. user_feature_matrix user_profiles sampled_ids feature_ids = Inr M \<and>
           (\<forall>u\<in>set sampled_ids. \<forall>f\<in>set feature_ids.
              \<exists>p. (u, p) \<in> set user_profiles \<and>
                  cell_at M u f =
                    Inr (Val (case map_of (feature_preferences p) f of
                                Some x \<Rightarrow> x | None \<Rightarrow> - 1)))"
proof -
  let ?sp = "map (\<lambda>u. (u, the (map_of user_profiles u))) sampled_ids"
  let ?df0 = "new_frame (- 1 :: real) sampled_ids feature_ids"
  let ?M = "fill_users ?df0 ?sp"
  have sp: "sampled_user_profiles user_profiles sampled_ids = Inr ?sp"
    unfolding sampled_user_profiles_def
    using sampled_user_profiles_from_distinct [of "[]" sampled_ids user_profiles] assms(3,4)
    by simp
  then have M: "user_feature_matrix user_profiles sampled_ids feature_ids = Inr ?M"
    by (simp add: user_feature_matrix_def)
  have keys: "map fst ?sp = sampled_ids" by (simp add: comp_def)
  have the_p: "(u, the (map_of user_profiles u)) \<in> set user_profiles" if "u \<in> set sampled_ids" for u
  proof -
    from that assms(4) obtain p where "(u, p) \<in> set user_profiles" by auto
    with assms(1) show ?thesis by simp
  qed
  have "fst ` set ?sp \<subseteq> set (index ?df0)" by (auto simp: new_frame_def)
  moreover have "distinct (map fst ?sp)" using assms(3) keys by simp
  moreover have "\<forall>p\<in>snd ` set ?sp. distinct (map fst (feature_preferences p))"
  proof
    fix p assume "p \<in> snd ` set ?sp"
    then obtain u where "u \<in> set sampled_ids" "p = the (map_of user_profiles u)" by auto
    with the_p have "(u, p) \<in> set user_profiles" by simp
    then have "p \<in> snd ` set user_profiles" by force
    with assms(2) show "distinct (map fst (feature_preferences p))" by blast
  qed
  ultimately have fr:
    "index ?M = index ?df0" "set (columns ?df0) \<subseteq> set (columns ?M)"
    "\<And>r c. c \<in> set (columns ?df0) \<Longrightarrow>
      cells ?M r c =
        (case map_of ?sp r of
           None \<Rightarrow> cells ?df0 r c
         | Some p \<Rightarrow> (case map_of (feature_preferences p) c of
                        Some x \<Rightarrow> Val x | None \<Rightarrow> cells ?df0 r c))"
    using fill_users_frame [of ?sp ?df0] by blast+
  have "\<exists>p. (u, p) \<in> set user_profiles \<and>
          cell_at ?M u f =
            Inr (Val (case map_of (feature_preferences p) f of Some x \<Rightarrow> x | None \<Rightarrow> - 1))"
    if u: "u \<in> set sampled_ids" and f: "f \<in> set feature_ids" for u f
  proof -
    let ?p = "the (map_of user_profiles u)"
    have "map_of ?sp u = Some ?p" using u by (simp add: map_of_map_restrict)
    moreover have "f \<in> set (columns ?df0)" using f by (simp add: new_frame_def)
    ultimately have "cells ?M u f =
        Val (case map_of (feature_preferences ?p) f of Some x \<Rightarrow> x | None \<Rightarrow> - 1)"
      using fr(3) [of f u] by (simp add: new_frame_def split: option.splits)
    moreover have "u \<in> set (index ?M)" "f \<in> set (columns ?M)"
      using u f fr(1,2) by (auto simp: new_frame_def)
    ultimately show ?thesis using the_p [OF u] by (auto simp: cell_at_def)
  qed
  with M show ?thesis by blast
qed

theorem user_feature_matrix_sentinel_witness:
  "distinct (map fst [(''u1'', \<lparr>feature_preferences = [(0, 5 / 2), (2, 0)]\<rparr>),
                      (''u2'', \<lparr>feature_preferences = []\<rparr>)]) \<and>
   list_all (\<lambda>p. distinct (map fst (feature_preferences p)))
     (map snd [(''u1'', \<lparr>feature_preferences = [(0, 5 / 2), (2, 0)]\<rparr>),
               (''u2'', \<lparr>feature_preferences = []\<rparr>)]) \<and>
   distinct [''u2'', ''u1''] \<and>
   set [''u2'', ''u1''] \<subseteq> set (map fst [(''u1'', \<lparr>feature_preferences = [(0, 5 / 2), (2, 0)]\<rparr>),
                      (''u2'', \<lparr>feature_preferences = []\<rparr>)]) \<and>
   (\<exists>M. user_feature_matrix [(''u1'', \<lparr>feature_preferences = [(0, 5 / 2), (2, 0)]\<rparr>),
                      (''u2'', \<lparr>feature_preferences = []\<rparr>)] [''u2'', ''u1''] [0, 1, 2] = Inr M \<and>
        cell_at M ''u1'' 0 = Inr (Val (5 / 2)) \<and>
        cell_at M ''u1'' 1 = Inr (Val (- 1)) \<and>
        cell_at M ''u1'' 2 = Inr (Val 0) \<and>
        cell_at M ''u2'' 0 = Inr (Val (- 1)))"
proof -
  let ?p1 = "\<lparr>feature_preferences = [(0, 5 / 2), (2, 0)]\<rparr>"
  let ?p2 = "\<lparr>feature_preferences = []\<rparr>"
  let ?up = "[(''u1'', ?p1), (''u2'', ?p2)]"
  let ?ids = "[''u2'', ''u1'']"
  let ?fids = "[0, 1, 2 :: int]"
  have h1: "distinct (map fst ?up)" by simp
  have h2: "\<forall>p\<in>snd ` set ?up. distinct (map fst (feature_preferences p))" by simp
  have h3: "distinct ?ids" by simp
  have h4: "set ?ids \<subseteq> set (map fst ?up)" by simp
  from user_feature_matrix_sentinel [OF h1 h2 h3 h4, of ?fids]
  obtain M where M: "user_feature_matrix ?up ?ids ?fids = Inr M"
    and cell: "\<And>u f. u \<in> set ?ids \<Longrightarrow> f \<in> set ?fids \<Longrightarrow>
       \<exists>p. (u, p) \<in> set ?up \<and>
           cell_at M u f = Inr (Val (case map_of (feature_preferences p) f of
                                       Some x \<Rightarrow> x | None \<Rightarrow> - 1))"
    by blast
  from cell [of "''u1''" 0] have c10: "cell_at M ''u1'' 0 = Inr (Val (5 / 2))" by auto
  from cell [of "''u1''" 1] have c11: "cell_at M ''u1'' 1 = Inr (Val (- 1))" by auto
  from cell [of "''u1''" 2] have c12: "cell_at M ''u1'' 2 = Inr (Val 0)" by auto
  from cell [of "''u2''" 0] have c20: "cell_at M ''u2'' 0 = Inr (Val (- 1))" by auto
  have l2: "list_all (\<lambda>p. distinct (map fst (feature_preferences p))) (map snd ?up)" by simp
  from M c10 c11 c12 c20 h1 l2 h3 h4 show ?thesis by blast
qed

subsection \<open>The movie feature matrix of the Heatmaps notebook\<close>

text \<open>
  \<open>movie_data\<close> has one column for every feature id that some movie has, and its entry
  at a movie and such a feature id is the same indicator: 1 if the movie has the feature,
  0 otherwise.
\<close>

lemma map_of_dict_of_keys:
  "map_of (dict_of_keys ks v) k = (if k \<in> set ks then Some v else None)"
  by (simp add: dict_of_keys_def map_of_map_restrict restrict_map_def)

lemma movie_data_one_hot:
  assumes "distinct (map fst movie_features)" and "(m, fs) \<in> set movie_features"
  shows "\<exists>D. movie_data movie_features = Inr D \<and>
           set (columns D) = (\<Union>(m', fs')\<in>set movie_features. set fs') \<and>
           (\<forall>f\<in>set (columns D). cell_at D m f = Inr (Val (if f \<in> set fs then 1 else 0)))"
proof -
  let ?g = "\<lambda>(mid :: string, feature_ids :: int list). dict_of_keys feature_ids (1 :: int)"
  let ?data = "map ?g movie_features"
  let ?ids = "map fst movie_features"
  let ?df = "\<lparr>index = ?ids,
              columns = rev (remdups (rev (concat (map (map fst) ?data)))),
              cells = (\<lambda>r c.
                 case map_of (zip ?ids ?data) r of
                   None \<Rightarrow> NaN
                 | Some d \<Rightarrow> (case map_of d c of None \<Rightarrow> NaN | Some v \<Rightarrow> Val v))\<rparr>"
  have fr: "from_records ?data ?ids = Inr ?df" by (simp add: from_records_def)
  then have D: "movie_data movie_features = Inr (fillna 0 ?df)"
    by (simp add: movie_data_def)
  have z: "zip ?ids ?data = map (\<lambda>x. (fst x, ?g x)) movie_features"
    by (simp add: zip_map_map zip_same_conv_map)
  have "distinct (map fst (map (\<lambda>x. (fst x, ?g x)) movie_features))"
    using assms(1) by (simp add: comp_def)
  moreover have "(m, dict_of_keys fs 1) \<in> set (map (\<lambda>x. (fst x, ?g x)) movie_features)"
    using assms(2) by force
  ultimately have row: "map_of (zip ?ids ?data) m = Some (dict_of_keys fs 1)"
    unfolding z by (rule map_of_is_SomeI)
  have keys: "set (map fst (?g x)) = set (snd x)" for x
    by (cases x) (simp add: dict_of_keys_def comp_def)
  have "set (concat (map (map fst) ?data)) = (\<Union>x\<in>set movie_features. set (map fst (?g x)))"
    by (simp add: comp_def)
  also have "\<dots> = (\<Union>x\<in>set movie_features. set (snd x))"
    using keys by simp
  finally have cols: "set (columns (fillna 0 ?df)) = (\<Union>(m', fs')\<in>set movie_features. set fs')"
    by (simp add: fillna_def case_prod_unfold)
  have m: "m \<in> set (index (fillna 0 ?df))" using assms(2) by (force simp: fillna_def)
  have "cell_at (fillna 0 ?df) m f = Inr (Val (if f \<in> set fs then 1 else 0))"
    if "f \<in> set (columns (fillna 0 ?df))" for f
    using that m row by (simp add: cell_at_def fillna_def map_of_dict_of_keys)
  with D cols show ?thesis by blast
qed

subsection \<open>Top and bottom correlations\<close>

lemma filter_less_upt: "filter (\<lambda>j. i < j) [0..<n] = [Suc i..<n]"
proof (induction n)
  case 0
  then show ?case by simp
next
  case (Suc n)
  then show ?case by (cases "i < n") (auto simp: upt_Suc_append less_Suc_eq)
qed

lemma get_redundant_pairs_square:
  assumes "length (index df) = length (columns df)"
  shows "get_redundant_pairs df =
     Inr {(columns df ! i, columns df ! j) |i j. j \<le> i \<and> i < length (columns df)}"
proof -
  let ?cols = "columns df"
  have "set (concat (map (\<lambda>i. map (\<lambda>j. (?cols ! i, ?cols ! j)) [0..<i + 1])
           [0..<length ?cols])) =
        (\<Union>i\<in>{0..<length ?cols}. (\<lambda>j. (?cols ! i, ?cols ! j)) ` {0..<i + 1})"
    by (simp del: upt_Suc)
  also have "\<dots> = {(?cols ! i, ?cols ! j) |i j. j \<le> i \<and> i < length ?cols}"
  proof (intro set_eqI iffI)
    fix p assume "p \<in> (\<Union>i\<in>{0..<length ?cols}. (\<lambda>j. (?cols ! i, ?cols ! j)) ` {0..<i + 1})"
    then obtain i j where "i < length ?cols" "j < i + 1" "p = (?cols ! i, ?cols ! j)" by auto
    then have "p = (?cols ! i, ?cols ! j) \<and> j \<le> i \<and> i < length ?cols" by simp
    then show "p \<in> {(?cols ! i, ?cols ! j) |i j. j \<le> i \<and> i < length ?cols}" by blast
  next
    fix p assume "p \<in> {(?cols ! i, ?cols ! j) |i j. j \<le> i \<and> i < length ?cols}"
    then obtain i j where "p = (?cols ! i, ?cols ! j)" "j \<le> i" "i < length ?cols" by blast
    then have "i \<in> {0..<length ?cols}" "p \<in> (\<lambda>j. (?cols ! i, ?cols ! j)) ` {0..<i + 1}"
      by auto
    then show "p \<in> (\<Union>i\<in>{0..<length ?cols}. (\<lambda>j. (?cols ! i, ?cols ! j)) ` {0..<i + 1})"
      by blast
  qed
  finally have "set (concat (map (\<lambda>i. map (\<lambda>j. (?cols ! i, ?cols ! j)) [0..<i + 1])
           [0..<length ?cols])) =
        {(?cols ! i, ?cols ! j) |i j. j \<le> i \<and> i < length ?cols}" .
  with assms show ?thesis by (simp add: get_redundant_pairs_def Let_def)
qed

lemma unstack_square:
  assumes "index df = columns df"
  shows "unstack df =
     concat (map (\<lambda>i. map (\<lambda>j. ((columns df ! i, columns df ! j),
                                   cells df (columns df ! j) (columns df ! i)))
                         [0..<length (columns df)]) [0..<length (columns df)])"
proof -
  let ?cols = "columns df"
  have cols: "?cols = map ((!) ?cols) [0..<length ?cols]" by (simp add: map_nth)
  have "unstack df = concat (map (\<lambda>c. map (\<lambda>r. ((c, r), cells df r c)) ?cols) ?cols)"
    using assms by (simp add: unstack_def)
  also have "\<dots> = concat (map (\<lambda>c. map (\<lambda>r. ((c, r), cells df r c))
       (map ((!) ?cols) [0..<length ?cols])) (map ((!) ?cols) [0..<length ?cols]))"
    using cols by simp
  also have "\<dots> = concat (map (\<lambda>i. map (\<lambda>j. ((?cols ! i, ?cols ! j), cells df (?cols ! j) (?cols ! i)))
                         [0..<length ?cols]) [0..<length ?cols])"
    by (simp add: comp_def)
  finally show ?thesis .
qed

lemma upper_pairs_square:
  assumes "index df = columns df" and "distinct (columns df)"
  shows "upper_pairs df = Inr (upper_list df) \<and>
         upper_list df = filter (\<lambda>(k, v). k \<notin> {(columns df ! i, columns df ! j) |i j.
            j \<le> i \<and> i < length (columns df)}) (unstack df)"
proof -
  let ?cols = "columns df"
  let ?n = "length ?cols"
  define P where "P = {(?cols ! i, ?cols ! j) |i j. j \<le> i \<and> i < ?n}"
  let ?g = "\<lambda>i j. ((?cols ! i, ?cols ! j), cells df (?cols ! j) (?cols ! i))"
  have sq: "length (index df) = ?n" using assms(1) by simp
  have un: "unstack df = concat (map (\<lambda>i. map (?g i) [0..<?n]) [0..<?n])"
    using assms(1) by (rule unstack_square)
  have keys: "P \<subseteq> fst ` set (unstack df)"
  proof
    fix p assume "p \<in> P"
    then obtain i j where p: "p = (?cols ! i, ?cols ! j)" and ij: "j \<le> i" "i < ?n"
      unfolding P_def by blast
    then have "j < ?n" by simp
    have "(p, cells df (?cols ! j) (?cols ! i)) \<in> ?g i ` {0..<?n}"
      using p \<open>j < ?n\<close> by auto
    with ij(2) have "(p, cells df (?cols ! j) (?cols ! i)) \<in> (\<Union>i\<in>{0..<?n}. ?g i ` {0..<?n})"
      by auto
    then have "(p, cells df (?cols ! j) (?cols ! i)) \<in> set (unstack df)"
      unfolding un by simp
    then show "p \<in> fst ` set (unstack df)" by force
  qed
  have mem: "(?cols ! i, ?cols ! j) \<notin> P \<longleftrightarrow> i < j" if "i < ?n" "j < ?n" for i j
  proof
    assume "i < j"
    show "(?cols ! i, ?cols ! j) \<notin> P"
    proof
      assume "(?cols ! i, ?cols ! j) \<in> P"
      then obtain i' j' where e: "?cols ! i = ?cols ! i'" "?cols ! j = ?cols ! j'"
        and ij': "j' \<le> i'" "i' < ?n" unfolding P_def by blast
      with that assms(2) have "i = i'" "j = j'"
        by (simp_all add: nth_eq_iff_index_eq)
      with ij' \<open>i < j\<close> show False by simp
    qed
  next
    assume n: "(?cols ! i, ?cols ! j) \<notin> P"
    show "i < j"
    proof (rule ccontr)
      assume "\<not> i < j"
      then have "j \<le> i" by simp
      with that have "(?cols ! i, ?cols ! j) \<in> P" unfolding P_def by blast
      with n show False by simp
    qed
  qed
  have inner: "filter (\<lambda>(k, v). k \<notin> P) (map (?g i) [0..<?n]) = map (?g i) [Suc i..<?n]"
    if i: "i < ?n" for i
  proof -
    have "filter (\<lambda>(k, v). k \<notin> P) (map (?g i) [0..<?n]) =
          map (?g i) (filter (\<lambda>j. (?cols ! i, ?cols ! j) \<notin> P) [0..<?n])"
      by (simp add: filter_map comp_def)
    also have "filter (\<lambda>j. (?cols ! i, ?cols ! j) \<notin> P) [0..<?n] = filter (\<lambda>j. i < j) [0..<?n]"
      by (rule filter_cong [OF refl]) (use mem [OF i] in simp)
    also have "\<dots> = [Suc i..<?n]" by (rule filter_less_upt)
    finally show ?thesis .
  qed
  have "filter (\<lambda>(k, v). k \<notin> P) (unstack df) =
        concat (map (\<lambda>i. filter (\<lambda>(k, v). k \<notin> P) (map (?g i) [0..<?n])) [0..<?n])"
    unfolding un by (simp add: filter_concat comp_def)
  also have "\<dots> = concat (map (\<lambda>i. map (?g i) [Suc i..<?n]) [0..<?n])"
    by (rule arg_cong [where f = concat], rule map_cong [OF refl]) (use inner in simp)
  finally have flt: "filter (\<lambda>(k, v). k \<notin> P) (unstack df) = upper_list df"
    by (simp add: upper_list_def)
  have "drop_labels (unstack df) P = Inr (upper_list df)"
    using keys flt by (simp add: drop_labels_def)
  then have "upper_pairs df = Inr (upper_list df)"
    using get_redundant_pairs_square [OF sq] by (simp add: upper_pairs_def Let_def P_def)
  with flt show ?thesis by (simp add: P_def)
qed


lemma upper_list_keys_distinct:
  assumes "index df = columns df" and "distinct (columns df)"
  shows "distinct (map fst (upper_list df))"
proof -
  define P where "P = {(columns df ! i, columns df ! j) |i j. j \<le> i \<and> i < length (columns df)}"
  have "map fst (unstack df) = List.product (columns df) (index df)"
    by (simp add: unstack_def map_concat comp_def product_concat_map)
  then have d: "distinct (map fst (unstack df))"
    using assms by (simp add: distinct_product)
  have "upper_list df = filter (\<lambda>(k, v). k \<notin> P) (unstack df)"
    using upper_pairs_square [OF assms] by (simp add: P_def)
  then have "map fst (upper_list df) = filter (\<lambda>k. k \<notin> P) (map fst (unstack df))"
    by (simp add: filter_map comp_def case_prod_unfold)
  with d show ?thesis by simp
qed

lemma upper_list_set:
  "set (upper_list df) =
     (\<Union>i\<in>{0..<length (columns df)}.
        (\<lambda>j. ((columns df ! i, columns df ! j), cells df (columns df ! j) (columns df ! i))) `
          {Suc i..<length (columns df)})"
  by (simp add: upper_list_def)

lemma upper_list_keys:
  "set (map fst (upper_list df)) =
     {(columns df ! i, columns df ! j) |i j. i < j \<and> j < length (columns df)}"
proof (intro set_eqI iffI)
  fix p assume "p \<in> set (map fst (upper_list df))"
  then obtain e where e: "e \<in> set (upper_list df)" "p = fst e" by auto
  from e(1) obtain i j where "i \<in> {0..<length (columns df)}" "j \<in> {Suc i..<length (columns df)}"
    "e = ((columns df ! i, columns df ! j), cells df (columns df ! j) (columns df ! i))"
    unfolding upper_list_set by blast
  with e(2) have "p = (columns df ! i, columns df ! j) \<and> i < j \<and> j < length (columns df)" by simp
  then show "p \<in> {(columns df ! i, columns df ! j) |i j. i < j \<and> j < length (columns df)}"
    by blast
next
  fix p assume "p \<in> {(columns df ! i, columns df ! j) |i j. i < j \<and> j < length (columns df)}"
  then obtain i j where p: "p = (columns df ! i, columns df ! j)" and ij: "i < j" "j < length (columns df)"
    by blast
  let ?g = "\<lambda>i j. ((columns df ! i, columns df ! j), cells df (columns df ! j) (columns df ! i))"
  have "?g i j \<in> ?g i ` {Suc i..<length (columns df)}" using ij by simp
  moreover have "i \<in> {0..<length (columns df)}" using ij by simp
  ultimately have "?g i j \<in> set (upper_list df)"
    unfolding upper_list_set by blast
  then have "fst (?g i j) \<in> set (map fst (upper_list df))" unfolding set_map by (rule imageI)
  with p show "p \<in> set (map fst (upper_list df))" by simp
qed

lemma upper_list_values:
  "((a, b), v) \<in> set (upper_list df) \<Longrightarrow> v = cells df b a"
  unfolding upper_list_set by blast

lemma upper_list_once:
  assumes "distinct (columns df)" and "a \<in> set (columns df)" and "b \<in> set (columns df)"
  shows "(a, a) \<notin> set (map fst (upper_list df)) \<and>
         (a \<noteq> b \<longrightarrow> ((a, b) \<in> set (map fst (upper_list df))) \<noteq>
                          ((b, a) \<in> set (map fst (upper_list df))))"
proof -
  let ?cols = "columns df"
  let ?K = "{(?cols ! i, ?cols ! j) |i j. i < j \<and> j < length ?cols}"
  from assms(2,3) obtain i j where i: "i < length ?cols" "a = ?cols ! i"
    and j: "j < length ?cols" "b = ?cols ! j"
    by (auto simp: in_set_conv_nth)
  have K: "(?cols ! x, ?cols ! y) \<in> ?K \<longleftrightarrow> x < y" if "x < length ?cols" "y < length ?cols" for x y
  proof
    assume "(?cols ! x, ?cols ! y) \<in> ?K"
    then obtain x' y' where "?cols ! x = ?cols ! x'" "?cols ! y = ?cols ! y'" "x' < y'" "y' < length ?cols"
      by blast
    with that assms(1) have "x = x'" "y = y'" by (simp_all add: nth_eq_iff_index_eq)
    with \<open>x' < y'\<close> show "x < y" by simp
  next
    assume "x < y"
    with that show "(?cols ! x, ?cols ! y) \<in> ?K" by blast
  qed
  have "(a, a) \<notin> ?K" using K [OF i(1) i(1)] i(2) by simp
  moreover have "((a, b) \<in> ?K) \<noteq> ((b, a) \<in> ?K)" if "a \<noteq> b"
  proof -
    from that i j have "i \<noteq> j" by auto
    then have "(i < j) \<noteq> (j < i)" by auto
    with K [OF i(1) j(1)] K [OF j(1) i(1)] i(2) j(2) show ?thesis by simp
  qed
  ultimately show ?thesis unfolding upper_list_keys by blast
qed

lemma map_sort_key: "map f (sort_key f xs) = sort (map f xs)"
  by (rule properties_for_sort [symmetric]) (simp_all add: sorted_sort_key)

lemma present_values_append:
  "present_values (s @ t) = present_values s @ present_values t"
  by (simp add: present_values_def)

lemma present_values_Val:
  "present_values (map (\<lambda>(k, x). (k, Val x)) xs) = xs"
  by (induction xs) (auto simp: present_values_def)

lemma present_values_missing:
  "present_values (filter (\<lambda>(k, v). v = NaN) s) = []"
  by (induction s) (auto simp: present_values_def)

lemma present_values_take_missing:
  "present_values (take n (filter (\<lambda>(k, v). v = NaN) s)) = []"
proof -
  have "set (take n (filter (\<lambda>(k, v). v = NaN) s)) \<subseteq> {e. snd e = NaN}"
    using set_take_subset [of n "filter (\<lambda>(k, v). v = NaN) s"] by auto
  then show ?thesis
    by (induction "take n (filter (\<lambda>(k, v). v = NaN) s)" arbitrary: n s)
       (auto simp: present_values_def)
qed

lemma series_values_sorted:
  "series_values (take n (sort_values True s)) = take n (sort (series_values s))"
  "series_values (take n (sort_values False s)) = take n (rev (sort (series_values s)))"
proof -
  let ?f = "\<lambda>(k, x). (k, Val x :: real cell)"
  have tk: "series_values (take n (map ?f xs @ filter (\<lambda>(k, v). v = NaN) s)) =
            take n (map snd xs)" for xs :: "('a \<times> real) list"
  proof -
    have "take n (map ?f xs @ filter (\<lambda>(k, v). v = NaN) s) =
          map ?f (take n xs) @ take (n - length xs) (filter (\<lambda>(k, v). v = NaN) s)"
      by (simp add: take_map)
    then have "series_values (take n (map ?f xs @ filter (\<lambda>(k, v). v = NaN) s)) =
          map snd (take n xs)"
      by (simp only: series_values_def present_values_append present_values_Val
          present_values_take_missing append_Nil2)
    then show ?thesis by (simp only: take_map)
  qed
  have "series_values (take n (sort_values True s)) =
        take n (map snd (sort_key snd (present_values s)))"
    unfolding sort_values_def Let_def if_True by (rule tk)
  then show "series_values (take n (sort_values True s)) = take n (sort (series_values s))"
    by (simp only: map_sort_key series_values_def)
  have "series_values (take n (sort_values False s)) =
        take n (map snd (rev (sort_key snd (present_values s))))"
    unfolding sort_values_def Let_def if_False by (rule tk)
  then show "series_values (take n (sort_values False s)) = take n (rev (sort (series_values s)))"
    by (simp only: rev_map [symmetric] map_sort_key series_values_def)
qed

text \<open>
  C6. For a square correlation matrix whose index equals its columns (the labels pairwise
  distinct), \<open>get_redundant_pairs\<close> returns exactly the pairs of column label i and
  column label j with j \<le> i, the diagonal and the lower triangle. What is left to sort is
  one entry for each pair of positions i < j, holding the correlation of the two labels:
  no entry of a label with itself, and of the two orders of two different labels exactly
  one. \<open>get_top_correlations\<close> returns the first n of these entries sorted in
  descending order and \<open>get_bottom_correlations\<close> the first n sorted in ascending order
  (missing correlations last): the values they return are the n largest values in
  descending order and the n smallest values in ascending order.
\<close>

theorem correlation_pairs_once:
  assumes "index corr_matrix = columns corr_matrix" and "distinct (columns corr_matrix)"
  shows "get_redundant_pairs corr_matrix =
           Inr {(columns corr_matrix ! i, columns corr_matrix ! j) |i j.
                  j \<le> i \<and> i < length (columns corr_matrix)} \<and>
         upper_pairs corr_matrix = Inr (upper_list corr_matrix) \<and>
         distinct (map fst (upper_list corr_matrix)) \<and>
         (\<forall>a\<in>set (columns corr_matrix). \<forall>b\<in>set (columns corr_matrix).
            (a, a) \<notin> set (map fst (upper_list corr_matrix)) \<and>
            (a \<noteq> b \<longrightarrow> ((a, b) \<in> set (map fst (upper_list corr_matrix))) \<noteq>
                             ((b, a) \<in> set (map fst (upper_list corr_matrix))))) \<and>
         (\<forall>((a, b), v)\<in>set (upper_list corr_matrix). v = cells corr_matrix b a) \<and>
         get_top_correlations corr_matrix n =
           Inr (take n (sort_values False (upper_list corr_matrix))) \<and>
         get_bottom_correlations corr_matrix n =
           Inr (take n (sort_values True (upper_list corr_matrix))) \<and>
         series_values (take n (sort_values False (upper_list corr_matrix))) =
           take n (rev (sort (series_values (upper_list corr_matrix)))) \<and>
         series_values (take n (sort_values True (upper_list corr_matrix))) =
           take n (sort (series_values (upper_list corr_matrix)))"
proof -
  have sq: "length (index corr_matrix) = length (columns corr_matrix)" using assms(1) by simp
  have up: "upper_pairs corr_matrix = Inr (upper_list corr_matrix)"
    using upper_pairs_square [OF assms] by simp
  have top: "get_top_correlations corr_matrix n =
           Inr (take n (sort_values False (upper_list corr_matrix)))"
    and bot: "get_bottom_correlations corr_matrix n =
           Inr (take n (sort_values True (upper_list corr_matrix)))"
    using up by (simp_all add: get_top_correlations_def get_bottom_correlations_def)
  have once: "\<forall>a\<in>set (columns corr_matrix). \<forall>b\<in>set (columns corr_matrix).
            (a, a) \<notin> set (map fst (upper_list corr_matrix)) \<and>
            (a \<noteq> b \<longrightarrow> ((a, b) \<in> set (map fst (upper_list corr_matrix))) \<noteq>
                             ((b, a) \<in> set (map fst (upper_list corr_matrix))))"
    using upper_list_once [OF assms(2)] by blast
  have vals: "\<forall>((a, b), v)\<in>set (upper_list corr_matrix). v = cells corr_matrix b a"
    using upper_list_values by fastforce
  from get_redundant_pairs_square [OF sq] up upper_list_keys_distinct [OF assms] once vals top bot
    series_values_sorted(2) [of n "upper_list corr_matrix"]
    series_values_sorted(1) [of n "upper_list corr_matrix"]
  show ?thesis by (intro conjI)
qed

theorem correlation_pairs_once_witness:
  "index \<lparr>index = [''a'', ''b'', ''c''], columns = [''a'', ''b'', ''c''],
      cells = (\<lambda>r c. if r = c then Val 1
                      else if (r, c) \<in> set [(''a'', ''b''), (''b'', ''a'')] then Val (1 / 2)
                      else if (r, c) \<in> set [(''a'', ''c''), (''c'', ''a'')] then Val (- 1 / 4)
                      else Val (1 / 4))\<rparr> =
   columns \<lparr>index = [''a'', ''b'', ''c''], columns = [''a'', ''b'', ''c''],
      cells = (\<lambda>r c. if r = c then Val 1
                      else if (r, c) \<in> set [(''a'', ''b''), (''b'', ''a'')] then Val (1 / 2)
                      else if (r, c) \<in> set [(''a'', ''c''), (''c'', ''a'')] then Val (- 1 / 4)
                      else Val (1 / 4))\<rparr> \<and>
   distinct [''a'', ''b'', ''c''] \<and>
   get_top_correlations \<lparr>index = [''a'', ''b'', ''c''], columns = [''a'', ''b'', ''c''],
      cells = (\<lambda>r c. if r = c then Val 1
                      else if (r, c) \<in> set [(''a'', ''b''), (''b'', ''a'')] then Val (1 / 2)
                      else if (r, c) \<in> set [(''a'', ''c''), (''c'', ''a'')] then Val (- 1 / 4)
                      else Val (1 / 4))\<rparr> 2 =
     Inr [((''a'', ''b''), Val (1 / 2)), ((''b'', ''c''), Val (1 / 4))] \<and>
   get_bottom_correlations \<lparr>index = [''a'', ''b'', ''c''], columns = [''a'', ''b'', ''c''],
      cells = (\<lambda>r c. if r = c then Val 1
                      else if (r, c) \<in> set [(''a'', ''b''), (''b'', ''a'')] then Val (1 / 2)
                      else if (r, c) \<in> set [(''a'', ''c''), (''c'', ''a'')] then Val (- 1 / 4)
                      else Val (1 / 4))\<rparr> 1 =
     Inr [((''a'', ''c''), Val (- 1 / 4))]"
proof -
  let ?cm = "\<lparr>index = [''a'', ''b'', ''c''], columns = [''a'', ''b'', ''c''],
      cells = (\<lambda>r c. if r = c then Val 1
                      else if (r, c) \<in> set [(''a'', ''b''), (''b'', ''a'')] then Val (1 / 2)
                      else if (r, c) \<in> set [(''a'', ''c''), (''c'', ''a'')] then Val (- 1 / 4)
                      else Val (1 / 4 :: real))\<rparr>"
  have h1: "index ?cm = columns ?cm" by simp
  have h2: "distinct (columns ?cm)" by simp
  have up: "upper_list ?cm =
      [((''a'', ''b''), Val (1 / 2)), ((''a'', ''c''), Val (- 1 / 4)), ((''b'', ''c''), Val (1 / 4))]"
    by (simp add: upper_list_def upt_rec)
  have top: "take 2 (sort_values False (upper_list ?cm)) =
      [((''a'', ''b''), Val (1 / 2)), ((''b'', ''c''), Val (1 / 4))]"
    unfolding up by (simp add: sort_values_def present_values_def)
  have bot: "take 1 (sort_values True (upper_list ?cm)) = [((''a'', ''c''), Val (- 1 / 4))]"
    unfolding up by (simp add: sort_values_def present_values_def)
  from correlation_pairs_once [OF h1 h2, of 2] correlation_pairs_once [OF h1 h2, of 1]
  have "get_top_correlations ?cm 2 = Inr (take 2 (sort_values False (upper_list ?cm)))"
    "get_bottom_correlations ?cm 1 = Inr (take 1 (sort_values True (upper_list ?cm)))"
    by blast+
  with top bot h1 h2 show ?thesis by simp
qed

subsection \<open>Choice of the number of clusters\<close>

lemma argmax_from_spec:
  "bi < length ys \<Longrightarrow> ys ! bi = bv \<Longrightarrow> i = length ys \<Longrightarrow>
   (\<forall>j<length ys. ys ! j \<le> bv) \<Longrightarrow> (\<forall>j<bi. ys ! j < bv) \<Longrightarrow>
   (let r = argmax_from bi bv i xs; zs = ys @ xs in
      r < length zs \<and> (\<forall>j<length zs. zs ! j \<le> zs ! r) \<and> (\<forall>j<r. zs ! j < zs ! r))"
proof (induction xs arbitrary: bi bv i ys)
  case Nil
  then show ?case by (simp add: Let_def)
next
  case (Cons x xs)
  show ?case
  proof (cases "bv < x")
    case True
    have "let r = argmax_from i x (Suc i) xs; zs = (ys @ [x]) @ xs in
      r < length zs \<and> (\<forall>j<length zs. zs ! j \<le> zs ! r) \<and> (\<forall>j<r. zs ! j < zs ! r)"
    proof (rule Cons.IH)
      show "i < length (ys @ [x])" using Cons.prems by simp
      show "(ys @ [x]) ! i = x" using Cons.prems by simp
      show "Suc i = length (ys @ [x])" using Cons.prems by simp
      show "\<forall>j<length (ys @ [x]). (ys @ [x]) ! j \<le> x"
      proof (intro allI impI)
        fix j assume "j < length (ys @ [x])"
        then consider "j < length ys" | "j = length ys" by fastforce
        then show "(ys @ [x]) ! j \<le> x"
        proof cases
          case 1
          with Cons.prems have "ys ! j \<le> bv" by blast
          with True 1 show ?thesis by (simp add: nth_append)
        next
          case 2
          then show ?thesis by simp
        qed
      qed
      show "\<forall>j<i. (ys @ [x]) ! j < x"
        using Cons.prems True by (auto simp: nth_append)
    qed
    with True show ?thesis by simp
  next
    case False
    have "let r = argmax_from bi bv (Suc i) xs; zs = (ys @ [x]) @ xs in
      r < length zs \<and> (\<forall>j<length zs. zs ! j \<le> zs ! r) \<and> (\<forall>j<r. zs ! j < zs ! r)"
    proof (rule Cons.IH)
      show "bi < length (ys @ [x])" using Cons.prems by simp
      show "(ys @ [x]) ! bi = bv" using Cons.prems by (simp add: nth_append)
      show "Suc i = length (ys @ [x])" using Cons.prems by simp
      show "\<forall>j<length (ys @ [x]). (ys @ [x]) ! j \<le> bv"
        using Cons.prems False by (auto simp: nth_append less_Suc_eq)
      show "\<forall>j<bi. (ys @ [x]) ! j < bv"
        using Cons.prems by (auto simp: nth_append)
    qed
    with False show ?thesis by simp
  qed
qed

lemma np_argmax_first_max:
  assumes "xs \<noteq> []"
  shows "\<exists>r. np_argmax xs = Inr r \<and> r < length xs \<and>
           (\<forall>j<length xs. xs ! j \<le> xs ! r) \<and> (\<forall>j<r. xs ! j < xs ! r)"
proof -
  from assms obtain x r where xs: "xs = x # r" by (cases xs) auto
  have "let k = argmax_from 0 x (length [x]) r; zs = [x] @ r in
      k < length zs \<and> (\<forall>j<length zs. zs ! j \<le> zs ! k) \<and> (\<forall>j<k. zs ! j < zs ! k)"
    by (rule argmax_from_spec) auto
  then show ?thesis unfolding xs by (simp add: np_argmax_def Let_def)
qed

lemma k_range_length: "length k_range = 19"
  unfolding k_range_def by (simp only: length_upt)

lemma k_range_nth: "i < 19 \<Longrightarrow> k_range ! i = i + 2"
  unfolding k_range_def by (subst nth_upt) simp_all

text \<open>
  C10. The number of clusters is the k of 2..20 with the largest silhouette score among
  the scores of \<open>compute_clustering_metrics\<close>, the smallest such k when several tie
  (the first argmax), and the final clustering is the K-Means fit with exactly that k.
\<close>

theorem kmeans_best_first_argmax:
  fixes fp :: "nat \<Rightarrow> 'd \<Rightarrow> 'l" and sil ch :: "'d \<Rightarrow> 'l \<Rightarrow> real"
  shows "\<exists>k. kmeans_best fp sil ch data = Inr (k, fp k data) \<and> k \<in> {2..20} \<and>
     best_k k_range (fst (compute_clustering_metrics fp sil ch data k_range)) = Inr k \<and>
     (\<forall>j\<in>{2..20}. sil data (fp j data) \<le> sil data (fp k data)) \<and>
     (\<forall>j\<in>{2..<k}. sil data (fp j data) < sil data (fp k data))"
proof -
  define scores where "scores = map (\<lambda>k. sil data (fp k data)) k_range"
  have len: "length scores = 19" by (simp add: scores_def k_range_length)
  then have "scores \<noteq> []" by auto
  from np_argmax_first_max [OF this] obtain r where
    r: "np_argmax scores = Inr r" "r < 19"
    and mx: "\<forall>j<19. scores ! j \<le> scores ! r"
    and fst: "\<forall>j<r. scores ! j < scores ! r"
    using len by auto
  have nth: "scores ! j = sil data (fp (j + 2) data)" if "j < 19" for j
    using that by (simp add: scores_def k_range_length k_range_nth)
  have bk: "best_k k_range scores = Inr (r + 2)"
    using r by (simp add: best_k_def k_range_length k_range_nth)
  have "kmeans_best fp sil ch data = Inr (r + 2, fp (r + 2) data)"
    using bk by (simp add: kmeans_best_def compute_clustering_metrics_def scores_def)
  moreover have "r + 2 \<in> {2..20}" using r by simp
  moreover have "\<forall>j\<in>{2..20}. sil data (fp j data) \<le> sil data (fp (r + 2) data)"
  proof
    fix j :: nat assume "j \<in> {2..20}"
    then have "j - 2 < 19" "j - 2 + 2 = j" by auto
    with mx nth [of "j - 2"] nth [of r] r show "sil data (fp j data) \<le> sil data (fp (r + 2) data)"
      by (metis)
  qed
  moreover have "\<forall>j\<in>{2..<r + 2}. sil data (fp j data) < sil data (fp (r + 2) data)"
  proof
    fix j :: nat assume "j \<in> {2..<r + 2}"
    then have j: "j - 2 < r" "j - 2 + 2 = j" by auto
    then have "j - 2 < 19" using r by simp
    with fst nth [of "j - 2"] nth [of r] r j show "sil data (fp j data) < sil data (fp (r + 2) data)"
      by (metis)
  qed
  moreover have "best_k k_range (fst (compute_clustering_metrics fp sil ch data k_range)) = Inr (r + 2)"
    using bk by (simp add: compute_clustering_metrics_def scores_def)
  ultimately show ?thesis by blast
qed

theorem kmeans_best_first_argmax_witness:
  "kmeans_best (\<lambda>k (d::unit). k) (\<lambda>d l. if l = 4 \<or> l = 9 then 1 else 0) (\<lambda>d l. 0) () = Inr (4, 4)"
proof -
  let ?sil = "\<lambda>(d::unit) (l::nat). if l = 4 \<or> l = 9 then 1 else (0::real)"
  from kmeans_best_first_argmax [of "\<lambda>k (d::unit). k" ?sil "\<lambda>d l. 0" "()"]
  obtain k where k: "kmeans_best (\<lambda>k (d::unit). k) ?sil (\<lambda>d l. 0) () = Inr (k, k)"
    "k \<in> {2..20}" "\<forall>j\<in>{2..20}. ?sil () j \<le> ?sil () k" "\<forall>j\<in>{2..<k}. ?sil () j < ?sil () k"
    by blast
  from k(3) have "?sil () 4 \<le> ?sil () k" by (rule bspec) simp
  then have k49: "k = 4 \<or> k = 9" by (simp split: if_splits)
  have "k \<noteq> 9"
  proof
    assume "k = 9"
    with k(4) have "\<forall>j\<in>{2..<9::nat}. ?sil () j < ?sil () 9" by simp
    then have "?sil () 4 < ?sil () 9" by (rule bspec) simp
    then show False by simp
  qed
  with k49 have "k = 4" by simp
  with k(1) show ?thesis by simp
qed

subsection \<open>Retained features\<close>

lemma id_to_feature_of_distinct:
  "distinct (map fst (id_to_feature_of raw))" "distinct (map snd (id_to_feature_of raw))"
  by (simp_all add: id_to_feature_of_def retained_features_def distinct_map inj_on_def)

lemma id_to_feature_of_retained:
  "(fid, name) \<in> set (id_to_feature_of raw) \<Longrightarrow> name \<in> set (retained_features raw)"
  unfolding id_to_feature_of_def by (rule set_zip_rightD)

lemma movie_has_feature_id:
  assumes "(fid, name) \<in> set (id_to_feature_of raw)"
  shows "fid \<in> set (map fst (filter (\<lambda>(i, nm). nm \<in> set fs) (id_to_feature_of raw))) \<longleftrightarrow>
         name \<in> set fs"
proof
  assume "fid \<in> set (map fst (filter (\<lambda>(i, nm). nm \<in> set fs) (id_to_feature_of raw)))"
  then obtain nm where nm: "(fid, nm) \<in> set (id_to_feature_of raw)" "nm \<in> set fs" by auto
  with assms id_to_feature_of_distinct(1) [of raw] have "nm = name"
    by (meson eq_key_imp_eq_value)
  with nm show "name \<in> set fs" by simp
next
  assume "name \<in> set fs"
  with assms have "(fid, name) \<in> set (filter (\<lambda>(i, nm). nm \<in> set fs) (id_to_feature_of raw))"
    by simp
  then show "fid \<in> set (map fst (filter (\<lambda>(i, nm). nm \<in> set fs) (id_to_feature_of raw)))"
    by force
qed

lemma occurrences_movie_features_of:
  assumes "(fid, name) \<in> set (id_to_feature_of raw)"
  shows "occurrences fid (movie_features_of raw) = occurrences name raw"
proof -
  have "filter (\<lambda>(m, ids). fid \<in> set ids) (movie_features_of raw) =
        map (\<lambda>(m, fs). (m, map fst (filter (\<lambda>(i, nm). nm \<in> set fs) (id_to_feature_of raw))))
          (filter (\<lambda>(m, fs). name \<in> set fs) raw)"
    unfolding movie_features_of_def filter_map
    by (rule arg_cong [where f = "map _"], rule filter_cong [OF refl])
       (use movie_has_feature_id [OF assms] in \<open>auto simp: comp_def\<close>)
  then show ?thesis by (simp add: occurrences_def)
qed

text \<open>
  C3. Every feature of the feature mapping occurs in at least \<open>MIN_OCCURRENCES\<close> = 20
  movies: for every feature id of the mapping, at least 20 movies m have the id in
  \<open>movie_features[m]\<close>.
\<close>

theorem retained_features_occur:
  "\<forall>(fid, name)\<in>set (id_to_feature_of raw).
     MIN_OCCURRENCES \<le> occurrences fid (movie_features_of raw) \<and>
     20 \<le> length (filter (\<lambda>(m, fs). fid \<in> set fs) (movie_features_of raw))"
proof (intro ballI, clarify)
  fix fid name assume a: "(fid, name) \<in> set (id_to_feature_of raw)"
  then have "name \<in> set (retained_features raw)" by (rule id_to_feature_of_retained)
  then have "MIN_OCCURRENCES \<le> occurrences name raw" by (simp add: retained_features_def)
  with occurrences_movie_features_of [OF a]
  show "MIN_OCCURRENCES \<le> occurrences fid (movie_features_of raw) \<and>
     20 \<le> length (filter (\<lambda>(m, fs). fid \<in> set fs) (movie_features_of raw))"
    by (simp add: occurrences_def MIN_OCCURRENCES_def)
qed

theorem retained_features_occur_witness:
  "id_to_feature_of ((''m0'', [''Genre_Drama'', ''Actor_X'']) #
       map (\<lambda>n. (replicate (Suc n) CHR ''m'', [''Genre_Drama''])) [0..<19]) = [(0, ''Genre_Drama'')] \<and>
   MIN_OCCURRENCES \<le> occurrences 0 (movie_features_of ((''m0'', [''Genre_Drama'', ''Actor_X'']) #
       map (\<lambda>n. (replicate (Suc n) CHR ''m'', [''Genre_Drama''])) [0..<19])) \<and>
   occurrences ''Actor_X'' ((''m0'', [''Genre_Drama'', ''Actor_X'']) #
       map (\<lambda>n. (replicate (Suc n) CHR ''m'', [''Genre_Drama''])) [0..<19]) = 1"
proof -
  let ?D = "''Genre_Drama''" and ?A = "''Actor_X''"
  let ?raw = "(''m0'', [?D, ?A]) # map (\<lambda>n. (replicate (Suc n) CHR ''m'', [?D])) [0..<19]"
  have cc: "concat (map snd ?raw) = [?D, ?A] @ replicate 19 ?D"
    by (simp add: comp_def map_replicate_const del: upt_rec_numeral)
  have rr: "remdups (replicate (Suc n) x) = [x]" for n and x :: string
    by (induction n) simp_all
  have "remdups (replicate 19 ?D) = [?D]"
    using rr [of 18 ?D] by simp
  then have rd: "remdups (concat (map snd ?raw)) = [?A, ?D]"
    unfolding cc by simp
  have oD: "occurrences ?D ?raw = 20"
    by (simp add: occurrences_def filter_map comp_def del: upt_rec_numeral)
  have oA: "occurrences ?A ?raw = 1"
    by (simp add: occurrences_def filter_map comp_def del: upt_rec_numeral)
  have ret: "retained_features ?raw = [?D]"
    unfolding retained_features_def rd using oD oA by (simp add: MIN_OCCURRENCES_def)
  have i2f: "id_to_feature_of ?raw = [(0, ?D)]"
    unfolding id_to_feature_of_def ret by simp
  then have "(0, ?D) \<in> set (id_to_feature_of ?raw)" by simp
  with retained_features_occur [of ?raw]
  have "MIN_OCCURRENCES \<le> occurrences 0 (movie_features_of ?raw)" by blast
  with i2f oA show ?thesis by simp
qed

end
